theory Spec2Isabelle
  imports Main
begin

section \<open>Signals, errors and the observable trace\<close>

text \<open>
  The six signals that \<^verbatim>\<open>dissembler.go\<close> names (lines 15-35) and that \<^verbatim>\<open>Wait\<close>
  passes to \<^verbatim>\<open>signal.Notify\<close>. Every other signal number the operating system can raise
  is \<open>SIGOTHER n\<close>.
\<close>

datatype Signal = SIGHUP | SIGINT | SIGQUIT | SIGTERM | SIGUSR1 | SIGUSR2 | SIGOTHER nat

text \<open>A Go \<^verbatim>\<open>error\<close> value is its message; \<^verbatim>\<open>nil\<close> is \<open>None\<close>.\<close>

type_synonym error = string

datatype callback = CInit | CStart | CStop | CReload

text \<open>
  What an observer can see of a run: each invocation of a lifecycle callback, and each
  entry written to \<^verbatim>\<open>DissemblerLogger\<close>.
\<close>

datatype event =
    Call callback
  | LogInfo string Signal
  | LogError string error

text \<open>What a call does when control is handed to it: it comes back with a value, or never.\<close>

datatype 'a outcome = Blocks | Returns 'a

section \<open>Lifecycle, Reloader, Dissembler\<close>

text \<open>
  \<^verbatim>\<open>Lifecycle\<close> (lines 45-55) has the methods \<^verbatim>\<open>Init\<close>, \<^verbatim>\<open>Start\<close>, \<^verbatim>\<open>Stop\<close>, each returning
  an \<^verbatim>\<open>error\<close>. An implementation acts on the application's own state \<open>'s\<close>. \<^verbatim>\<open>Reloader\<close>
  (lines 62-64) is optional: \<open>Reload\<close> is \<open>None\<close> for a lifecycle that does not implement it.
  The callbacks are functions, so each call made to them returns.
\<close>

record 's Lifecycle =
  Init :: "'s \<Rightarrow> error option \<times> 's"
  Start :: "'s \<Rightarrow> error option \<times> 's"
  Stop :: "'s \<Rightarrow> error option \<times> 's"
  Reload :: "('s \<Rightarrow> error option \<times> 's) option"

record 's Dissembler =
  lifecycle :: "'s Lifecycle"

text \<open>
  The state a run of \<^verbatim>\<open>Serve\<close> acts on: the application's state, the trace, the local
  variable \<^verbatim>\<open>err\<close> of \<^verbatim>\<open>Serve\<close> (the closure given to \<^verbatim>\<open>go\<close> captures and assigns it), and
  the goroutine spawned by \<^verbatim>\<open>go\<close> for as long as it has not run: \<open>pending = Some n\<close> says
  that the scheduler lets the spawning goroutine pass \<open>n\<close> more scheduling points first.
\<close>

record 's world =
  app :: 's
  trace :: "event list"
  serve_err :: "error option"
  pending :: "nat option"

definition init_world :: "'s \<Rightarrow> 's world" where
  "init_world a = \<lparr>app = a, trace = [], serve_err = None, pending = None\<rparr>"

definition invoke :: "callback \<Rightarrow> ('s \<Rightarrow> error option \<times> 's) \<Rightarrow> 's world \<Rightarrow> error option \<times> 's world" where
  "invoke c f w =
     (case f (app w) of (e, a) \<Rightarrow> (e, w\<lparr>app := a, trace := trace w @ [Call c]\<rparr>))"

definition log_info :: "string \<Rightarrow> Signal \<Rightarrow> 's world \<Rightarrow> 's world" where
  "log_info msg sig w = w\<lparr>trace := trace w @ [LogInfo msg sig]\<rparr>"

definition log_error :: "string \<Rightarrow> error \<Rightarrow> 's world \<Rightarrow> 's world" where
  "log_error msg e w = w\<lparr>trace := trace w @ [LogError msg e]\<rparr>"

section \<open>The goroutine that runs Start\<close>

text \<open>
  Lines 110-116: \<^verbatim>\<open>go func() error { err = d.lifecycle.Start(); ... }()\<close>. The body calls
  \<^verbatim>\<open>Start\<close> and assigns its result to the captured \<^verbatim>\<open>err\<close>; the value the closure
  returns is dropped by \<^verbatim>\<open>go\<close>.
\<close>

definition start_goroutine :: "'s Dissembler \<Rightarrow> 's world \<Rightarrow> 's world" where
  "start_goroutine d w =
     (case invoke CStart (Start (lifecycle d)) w of (e, w') \<Rightarrow> w'\<lparr>serve_err := e\<rparr>)"

text \<open>
  The \<^verbatim>\<open>go\<close> statement only makes the goroutine runnable. When it runs is the scheduler's
  choice, here the number \<open>n\<close>.
\<close>

definition go :: "nat \<Rightarrow> 's world \<Rightarrow> 's world" where
  "go n w = w\<lparr>pending := Some n\<rparr>"

text \<open>
  A scheduling point of the goroutine that executes \<^verbatim>\<open>Serve\<close>: the spawned goroutine runs
  here if its turn has come.
\<close>

definition yield :: "'s Dissembler \<Rightarrow> 's world \<Rightarrow> 's world" where
  "yield d w =
     (case pending w of
        None \<Rightarrow> w
      | Some 0 \<Rightarrow> start_goroutine d (w\<lparr>pending := None\<rparr>)
      | Some (Suc n) \<Rightarrow> w\<lparr>pending := Some n\<rparr>)"

text \<open>
  When \<^verbatim>\<open>Serve\<close>'s goroutine blocks for good, a goroutine that is still runnable gets the
  processor.
\<close>

definition blocked :: "'s Dissembler \<Rightarrow> 's world \<Rightarrow> 's world" where
  "blocked d w =
     (case pending w of
        None \<Rightarrow> w
      | Some n \<Rightarrow> start_goroutine d (w\<lparr>pending := None\<rparr>))"

section \<open>The signal channel\<close>

text \<open>
  Lines 131-140: \<^verbatim>\<open>ch := make(chan os.Signal, 2)\<close> and \<^verbatim>\<open>signal.Notify(ch, ...)\<close>.
  A buffered channel has a capacity and the values waiting in it. \<^verbatim>\<open>Notify\<close> registers the
  channel for the listed signals. Package \<^verbatim>\<open>os/signal\<close> hands a raised signal to a registered
  channel with a send that does not block: the signal is queued when the buffer has room
  and dropped otherwise, and a signal that is not registered never reaches the channel.
\<close>

record sigchan =
  capacity :: nat
  buffer :: "Signal list"

definition make_chan :: "nat \<Rightarrow> sigchan" where
  "make_chan n = \<lparr>capacity = n, buffer = []\<rparr>"

record handler =
  chan :: sigchan
  wanted :: "Signal list"

definition Notify :: "sigchan \<Rightarrow> Signal list \<Rightarrow> handler" where
  "Notify c sigs = \<lparr>chan = c, wanted = sigs\<rparr>"

definition deliver :: "Signal \<Rightarrow> handler \<Rightarrow> handler" where
  "deliver sig h =
     (if sig \<in> set (wanted h) \<and> length (buffer (chan h)) < capacity (chan h)
      then h\<lparr>chan := (chan h)\<lparr>buffer := buffer (chan h) @ [sig]\<rparr>\<rparr>
      else h)"

text \<open>
  The values that successive receives \<^verbatim>\<open>sig := <-ch\<close> yield when the signals \<open>sigs\<close> are
  raised one after the other and the loop keeps up with them (no signal finds the buffer
  full).
\<close>

definition relayed :: "handler \<Rightarrow> Signal list \<Rightarrow> Signal list" where
  "relayed h sigs = filter (\<lambda>sig. sig \<in> set (wanted h)) sigs"

section \<open>Wait\<close>

text \<open>The channel and the registration that \<^verbatim>\<open>Wait\<close> sets up (lines 131-140).\<close>

definition Wait_handler :: handler where
  "Wait_handler = Notify (make_chan 2) [SIGHUP, SIGINT, SIGQUIT, SIGTERM, SIGUSR1, SIGUSR2]"

text \<open>
  The \<^verbatim>\<open>for\<close> loop of lines 141-182 over the values the channel yields. With no value left
  the receive blocks for ever. The \<^verbatim>\<open>switch\<close> has the three cases \<^verbatim>\<open>SIGINT\<close>, \<^verbatim>\<open>SIGQUIT\<close>,
  \<^verbatim>\<open>SIGTERM\<close> and no default; the cases for \<^verbatim>\<open>SIGHUP\<close> and \<^verbatim>\<open>SIGUSR2\<close> are commented out.
  The result of \<^verbatim>\<open>d.lifecycle.Stop()\<close> is dropped.
\<close>

fun Wait_loop ::
  "'s Dissembler \<Rightarrow> Signal list \<Rightarrow> 's world \<Rightarrow> (Signal \<times> error option) outcome \<times> 's world" where
  "Wait_loop d [] w = (Blocks, blocked d w)"
| "Wait_loop d (sig # rest) w =
     (let w1 = log_info ''signal caught'' sig (yield d w) in
      case sig of
        SIGINT \<Rightarrow>
          (case invoke CStop (Stop (lifecycle d)) (yield d w1) of
             (_, w2) \<Rightarrow> (Returns (SIGINT, None), yield d w2))
      | SIGQUIT \<Rightarrow>
          (case invoke CStop (Stop (lifecycle d)) (yield d w1) of
             (_, w2) \<Rightarrow> (Returns (SIGQUIT, None), yield d w2))
      | SIGTERM \<Rightarrow>
          (case invoke CStop (Stop (lifecycle d)) (yield d w1) of
             (_, w2) \<Rightarrow> (Returns (SIGTERM, None), yield d w2))
      | _ \<Rightarrow> Wait_loop d rest w1)"

definition Dissembler_Wait ::
  "'s Dissembler \<Rightarrow> Signal list \<Rightarrow> 's world \<Rightarrow> (Signal \<times> error option) outcome \<times> 's world" where
  "Dissembler_Wait d sigs w = Wait_loop d (relayed Wait_handler sigs) w"

section \<open>Serve\<close>

text \<open>
  Lines 119-125, once \<^verbatim>\<open>d.Wait()\<close> has returned: the error of \<^verbatim>\<open>Wait\<close> is logged when
  there is one, and \<^verbatim>\<open>Serve\<close> returns \<^verbatim>\<open>nil\<close>.
\<close>

definition Serve_finish :: "Signal \<times> error option \<Rightarrow> 's world \<Rightarrow> error option \<times> 's world" where
  "Serve_finish r w =
     (case snd r of
        Some e \<Rightarrow> (None, log_error ''Unable to finish waiting for Dissembler to shutdown'' e w)
      | None \<Rightarrow> (None, w))"

text \<open>
  \<^verbatim>\<open>func (d *Dissembler) Serve() error\<close>, lines 97-126. The number \<open>n\<close> is the scheduler's
  choice for the goroutine of the \<^verbatim>\<open>go\<close> statement, \<open>sigs\<close> the signals raised while
  \<^verbatim>\<open>Wait\<close> listens.
\<close>

definition Dissembler_Serve ::
  "'s Dissembler \<Rightarrow> nat \<Rightarrow> Signal list \<Rightarrow> 's world \<Rightarrow> error option outcome \<times> 's world" where
  "Dissembler_Serve d n sigs w =
     (case invoke CInit (Init (lifecycle d)) w of
        (e, w0) \<Rightarrow>
          (let w1 = w0\<lparr>serve_err := e\<rparr> in
           case e of
             Some x \<Rightarrow> (Returns (Some x), w1)
           | None \<Rightarrow>
               (case Dissembler_Wait d sigs (go n w1) of
                  (Blocks, w2) \<Rightarrow> (Blocks, w2)
                | (Returns r, w2) \<Rightarrow>
                    (case Serve_finish r w2 of (res, w3) \<Rightarrow> (Returns res, w3)))))"

text \<open>\<^verbatim>\<open>func Serve(lc Lifecycle) error\<close>, lines 91-94.\<close>

definition Serve ::
  "'s Lifecycle \<Rightarrow> nat \<Rightarrow> Signal list \<Rightarrow> 's world \<Rightarrow> error option outcome \<times> 's world" where
  "Serve lc n sigs w = Dissembler_Serve \<lparr>lifecycle = lc\<rparr> n sigs w"

section \<open>Reading a trace\<close>

text \<open>How often the callback \<open>c\<close> has been invoked.\<close>

definition invocations :: "callback \<Rightarrow> 's world \<Rightarrow> nat" where
  "invocations c w = length (filter (\<lambda>ev. ev = Call c) (trace w))"

text \<open>The events of the goroutine that executes \<^verbatim>\<open>Serve\<close>: all but the call of \<^verbatim>\<open>Start\<close>.\<close>

definition main_trace :: "'s world \<Rightarrow> event list" where
  "main_trace w = filter (\<lambda>ev. ev \<noteq> Call CStart) (trace w)"

text \<open>The error-level entries of the log.\<close>

definition error_entries :: "'s world \<Rightarrow> event list" where
  "error_entries w = filter (\<lambda>ev. case ev of LogError _ _ \<Rightarrow> True | _ \<Rightarrow> False) (trace w)"

text \<open>
  The signals for which the \<^verbatim>\<open>switch\<close> of \<^verbatim>\<open>Wait\<close> has a case (lines 155, 160, 165).
\<close>

definition terminating :: "Signal set" where
  "terminating = {SIGINT, SIGQUIT, SIGTERM}"

section \<open>A lifecycle that records its calls\<close>

text \<open>
  A test lifecycle: its state is the list of the names of the callbacks called so far.
  \<open>recorder ri rs rp\<close> returns \<open>ri\<close> from \<open>Init\<close>, \<open>rs\<close> from \<open>Start\<close> and \<open>rp\<close> from
  \<open>Stop\<close>. It does not implement \<^verbatim>\<open>Reloader\<close>.
\<close>

definition recorder :: "error option \<Rightarrow> error option \<Rightarrow> error option \<Rightarrow> string list Lifecycle" where
  "recorder ri rs rp =
     \<lparr>Init = (\<lambda>l. (ri, l @ [''Init''])),
      Start = (\<lambda>l. (rs, l @ [''Start''])),
      Stop = (\<lambda>l. (rp, l @ [''Stop''])),
      Reload = None\<rparr>"

section \<open>Scheduling points, logging and calls\<close>

lemma invocations_yield [simp]: "c \<noteq> CStart \<Longrightarrow> invocations c (yield d w) = invocations c w"
  by (simp add: yield_def invocations_def start_goroutine_def invoke_def split: option.splits nat.splits prod.splits)

lemma invocations_blocked [simp]: "c \<noteq> CStart \<Longrightarrow> invocations c (blocked d w) = invocations c w"
  by (simp add: blocked_def invocations_def start_goroutine_def invoke_def split: option.splits nat.splits prod.splits)

lemma main_trace_yield [simp]: "main_trace (yield d w) = main_trace w"
  by (simp add: yield_def main_trace_def start_goroutine_def invoke_def split: option.splits nat.splits prod.splits)

lemma main_trace_blocked [simp]: "main_trace (blocked d w) = main_trace w"
  by (simp add: blocked_def main_trace_def start_goroutine_def invoke_def split: option.splits nat.splits prod.splits)

lemma main_trace_log_info [simp]: "main_trace (log_info m s w) = main_trace w @ [LogInfo m s]"
  by (simp add: main_trace_def log_info_def)

lemma main_trace_invoke_Stop [simp]: "main_trace (snd (invoke CStop f w)) = main_trace w @ [Call CStop]"
  by (simp add: main_trace_def invoke_def split: prod.splits)

lemma Wait_loop_Cons_terminating:
  "s \<in> terminating \<Longrightarrow>
   Wait_loop d (s # rest) w =
     (Returns (s, None),
      yield d (snd (invoke CStop (Stop (lifecycle d)) (yield d (log_info ''signal caught'' s (yield d w))))))"
  by (auto simp add: terminating_def Let_def case_prod_beta)

lemma Wait_loop_Cons_ignored:
  "s \<notin> terminating \<Longrightarrow>
   Wait_loop d (s # rest) w = Wait_loop d rest (log_info ''signal caught'' s (yield d w))"
  by (cases s) (simp_all add: terminating_def Let_def)

lemma Wait_loop_ignored:
  "\<forall>x \<in> set sigs. x \<notin> terminating \<Longrightarrow>
   fst (Wait_loop d sigs w) = Blocks \<and>
   main_trace (snd (Wait_loop d sigs w)) = main_trace w @ map (LogInfo ''signal caught'') sigs"
proof (induction sigs arbitrary: w)
  case Nil
  then show ?case by simp
next
  case (Cons x xs)
  then show ?case by (simp add: Wait_loop_Cons_ignored del: Wait_loop.simps)
qed

lemma Wait_loop_terminating:
  "\<forall>x \<in> set pre. x \<notin> terminating \<Longrightarrow> s \<in> terminating \<Longrightarrow>
   fst (Wait_loop d (pre @ s # post) w) = Returns (s, None) \<and>
   main_trace (snd (Wait_loop d (pre @ s # post) w)) =
     main_trace w @ map (LogInfo ''signal caught'') (pre @ [s]) @ [Call CStop]"
proof (induction pre arbitrary: w)
  case Nil
  then show ?case by (simp add: Wait_loop_Cons_terminating del: Wait_loop.simps)
next
  case (Cons x xs)
  then show ?case by (simp add: Wait_loop_Cons_ignored del: Wait_loop.simps)
qed

lemma Wait_loop_discards:
  "s \<in> terminating \<Longrightarrow> Wait_loop d (pre @ s # post) w = Wait_loop d (pre @ [s]) w"
proof (induction pre arbitrary: w)
  case Nil
  then show ?case by (simp add: Wait_loop_Cons_terminating del: Wait_loop.simps)
next
  case (Cons x xs)
  show ?case
  proof (cases "x \<in> terminating")
    case True
    then show ?thesis by (simp add: Wait_loop_Cons_terminating del: Wait_loop.simps)
  next
    case False
    then show ?thesis using Cons by (simp add: Wait_loop_Cons_ignored del: Wait_loop.simps)
  qed
qed


lemma invocations_log_info [simp]: "invocations c (log_info m s w) = invocations c w"
  by (simp add: invocations_def log_info_def)

lemma invocations_invoke [simp]:
  "invocations c (snd (invoke c' f w)) = (if c = c' then Suc (invocations c w) else invocations c w)"
  by (simp add: invocations_def invoke_def split: prod.splits)

lemma error_entries_yield [simp]: "error_entries (yield d w) = error_entries w"
  by (simp add: yield_def error_entries_def start_goroutine_def invoke_def split: option.splits nat.splits prod.splits)

lemma error_entries_blocked [simp]: "error_entries (blocked d w) = error_entries w"
  by (simp add: blocked_def error_entries_def start_goroutine_def invoke_def split: option.splits nat.splits prod.splits)

lemma error_entries_log_info [simp]: "error_entries (log_info m s w) = error_entries w"
  by (simp add: error_entries_def log_info_def)

lemma error_entries_invoke [simp]: "error_entries (snd (invoke c f w)) = error_entries w"
  by (simp add: error_entries_def invoke_def split: prod.splits)

lemma error_entries_go [simp]: "error_entries (go n w) = error_entries w"
  by (simp add: error_entries_def go_def)

lemma invocations_go [simp]: "invocations c (go n w) = invocations c w"
  by (simp add: invocations_def go_def)

lemma main_trace_go [simp]: "main_trace (go n w) = main_trace w"
  by (simp add: main_trace_def go_def)

lemma relayed_Cons_terminating:
  "s \<in> terminating \<Longrightarrow> relayed Wait_handler (s # sigs) = s # relayed Wait_handler sigs"
  by (auto simp add: terminating_def relayed_def Wait_handler_def Notify_def)

lemma relayed_append: "relayed h (xs @ ys) = relayed h xs @ relayed h ys"
  by (simp add: relayed_def)

lemma Wait_Cons_terminating:
  "s \<in> terminating \<Longrightarrow>
   Dissembler_Wait d (s # rest) w =
     (Returns (s, None),
      yield d (snd (invoke CStop (Stop (lifecycle d)) (yield d (log_info ''signal caught'' s (yield d w))))))"
  by (simp add: Dissembler_Wait_def relayed_Cons_terminating Wait_loop_Cons_terminating del: Wait_loop.simps)

lemma Wait_Cons_ignored:
  "s \<notin> terminating \<Longrightarrow>
   Dissembler_Wait d (s # rest) w =
     (if s \<in> set (wanted Wait_handler)
      then Dissembler_Wait d rest (log_info ''signal caught'' s (yield d w))
      else Dissembler_Wait d rest w)"
  by (simp add: Dissembler_Wait_def relayed_def Wait_loop_Cons_ignored del: Wait_loop.simps)

lemma Wait_Nil: "Dissembler_Wait d [] w = (Blocks, blocked d w)"
  by (simp add: Dissembler_Wait_def relayed_def)

lemma fst_Wait:
  "fst (Dissembler_Wait d sigs w) =
     (case find (\<lambda>s. s \<in> terminating) sigs of None \<Rightarrow> Blocks | Some s \<Rightarrow> Returns (s, None))"
proof (induction sigs arbitrary: w)
  case Nil
  show ?case by (simp add: Wait_Nil)
next
  case (Cons x xs)
  show ?case
  proof (cases "x \<in> terminating")
    case True
    then show ?thesis by (simp add: Wait_Cons_terminating)
  next
    case False
    then show ?thesis using Cons by (simp add: Wait_Cons_ignored)
  qed
qed

lemma invocations_Stop_Wait:
  "invocations CStop (snd (Dissembler_Wait d sigs w)) =
     (if \<exists>s \<in> set sigs. s \<in> terminating
      then Suc (invocations CStop w) else invocations CStop w)"
proof (induction sigs arbitrary: w)
  case Nil
  then show ?case by (simp add: Wait_Nil)
next
  case (Cons x xs)
  show ?case
  proof (cases "x \<in> terminating")
    case True
    then show ?thesis by (simp add: Wait_Cons_terminating)
  next
    case False
    then show ?thesis using Cons by (simp add: Wait_Cons_ignored)
  qed
qed

lemma invocations_other_Wait:
  "c \<noteq> CStart \<Longrightarrow> c \<noteq> CStop \<Longrightarrow>
   invocations c (snd (Dissembler_Wait d sigs w)) = invocations c w"
proof (induction sigs arbitrary: w)
  case Nil
  then show ?case by (simp add: Wait_Nil)
next
  case (Cons x xs)
  show ?case
  proof (cases "x \<in> terminating")
    case True
    then show ?thesis using Cons.prems by (simp add: Wait_Cons_terminating)
  next
    case False
    then show ?thesis using Cons by (simp add: Wait_Cons_ignored)
  qed
qed

lemma error_entries_Wait:
  "error_entries (snd (Dissembler_Wait d sigs w)) = error_entries w"
proof (induction sigs arbitrary: w)
  case Nil
  then show ?case by (simp add: Wait_Nil)
next
  case (Cons x xs)
  show ?case
  proof (cases "x \<in> terminating")
    case True
    then show ?thesis by (simp add: Wait_Cons_terminating)
  next
    case False
    then show ?thesis using Cons by (simp add: Wait_Cons_ignored)
  qed
qed

lemma find_terminating_None:
  "(find (\<lambda>s. s \<in> terminating) sigs = None) = (\<not> (\<exists>s \<in> set sigs. s \<in> terminating))"
  by (auto simp add: find_None_iff)

lemma find_terminating_first:
  "\<forall>x \<in> set pre. x \<notin> terminating \<Longrightarrow> s \<in> terminating \<Longrightarrow>
   find (\<lambda>s. s \<in> terminating) (pre @ s # post) = Some s"
  by (induction pre) auto


lemma Wait_discards:
  "s \<in> terminating \<Longrightarrow>
   Dissembler_Wait d (pre @ s # post) w = Dissembler_Wait d (pre @ [s]) w"
proof -
  assume s: "s \<in> terminating"
  have "Wait_loop d (relayed Wait_handler pre @ s # relayed Wait_handler post) w =
        Wait_loop d (relayed Wait_handler pre @ [s]) w"
    using s by (rule Wait_loop_discards)
  then show ?thesis
    using s by (simp add: Dissembler_Wait_def relayed_append relayed_Cons_terminating relayed_def [of _ "[]"]
        del: Wait_loop.simps)
qed

lemma relayed_ignored:
  "\<forall>x \<in> set pre. x \<notin> terminating \<Longrightarrow> \<forall>x \<in> set (relayed h pre). x \<notin> terminating"
  by (simp add: relayed_def)

lemma main_trace_Wait_terminating:
  assumes "\<forall>x \<in> set pre. x \<notin> terminating" and "s \<in> terminating"
  shows "main_trace (snd (Dissembler_Wait d (pre @ s # post) w)) =
           main_trace w @ map (LogInfo ''signal caught'') (relayed Wait_handler pre @ [s]) @ [Call CStop]"
proof -
  have "\<forall>x \<in> set (relayed Wait_handler pre). x \<notin> terminating"
    using assms(1) by (rule relayed_ignored)
  then show ?thesis
    using assms(2)
    by (simp add: Dissembler_Wait_def relayed_append relayed_Cons_terminating Wait_loop_terminating
          del: Wait_loop.simps)
qed

lemma main_trace_Wait_ignored:
  assumes "\<forall>x \<in> set sigs. x \<notin> terminating"
  shows "main_trace (snd (Dissembler_Wait d sigs w)) =
           main_trace w @ map (LogInfo ''signal caught'') (relayed Wait_handler sigs)"
proof -
  have "\<forall>x \<in> set (relayed Wait_handler sigs). x \<notin> terminating"
    using assms by (rule relayed_ignored)
  then show ?thesis
    by (simp add: Dissembler_Wait_def Wait_loop_ignored del: Wait_loop.simps)
qed

lemma Serve_finish_nil: "Serve_finish (sg, None) w = (None, w)"
  by (simp add: Serve_finish_def)

lemma Wait_result_cases:
  obtains (blocks) "fst (Dissembler_Wait d sigs w) = Blocks" "\<forall>s \<in> set sigs. s \<notin> terminating"
  | (returns) s where "fst (Dissembler_Wait d sigs w) = Returns (s, None)" "s \<in> set sigs" "s \<in> terminating"
proof (cases "find (\<lambda>s. s \<in> terminating) sigs")
  case None
  have a: "fst (Dissembler_Wait d sigs w) = Blocks"
    using None by (simp add: fst_Wait)
  have b: "\<forall>s \<in> set sigs. s \<notin> terminating"
    using None by (auto simp add: find_None_iff)
  show ?thesis by (rule blocks [OF a b])
next
  case (Some s)
  have a: "fst (Dissembler_Wait d sigs w) = Returns (s, None)"
    using Some by (simp add: fst_Wait)
  have b: "s \<in> set sigs" and c: "s \<in> terminating"
    using Some by (auto simp add: find_Some_iff)
  show ?thesis by (rule returns [OF a b c])
qed

lemma Serve_Init_ok:
  assumes "fst (Init lc (app w)) = None"
  shows "Serve lc n sigs w =
           (case Dissembler_Wait \<lparr>lifecycle = lc\<rparr> sigs
                   (go n ((snd (invoke CInit (Init lc) w))\<lparr>serve_err := None\<rparr>)) of
              (Blocks, w2) \<Rightarrow> (Blocks, w2)
            | (Returns r, w2) \<Rightarrow> (Returns None, w2))"
proof -
  let ?w1 = "go n ((snd (invoke CInit (Init lc) w))\<lparr>serve_err := None\<rparr>)"
  let ?d = "\<lparr>lifecycle = lc\<rparr>"
  have unfold: "Serve lc n sigs w =
      (case Dissembler_Wait ?d sigs ?w1 of
         (Blocks, w2) \<Rightarrow> (Blocks, w2)
       | (Returns r, w2) \<Rightarrow> (case Serve_finish r w2 of (res, w3) \<Rightarrow> (Returns res, w3)))"
    using assms by (cases "Init lc (app w)") (simp add: Serve_def Dissembler_Serve_def invoke_def)
  show ?thesis
  proof (cases rule: Wait_result_cases [of ?d sigs ?w1])
    case blocks
    then show ?thesis unfolding unfold by (cases "Dissembler_Wait ?d sigs ?w1") simp
  next
    case (returns s)
    then show ?thesis unfolding unfold
      by (cases "Dissembler_Wait ?d sigs ?w1") (simp add: Serve_finish_nil)
  qed
qed

lemma fst_Serve:
  "fst (Serve lc n sigs w) =
     (case fst (Init lc (app w)) of
        Some e \<Rightarrow> Returns (Some e)
      | None \<Rightarrow> if \<exists>s \<in> set sigs. s \<in> terminating then Returns None else Blocks)"
proof (cases "fst (Init lc (app w))")
  case None
  let ?w1 = "go n ((snd (invoke CInit (Init lc) w))\<lparr>serve_err := None\<rparr>)"
  let ?d = "\<lparr>lifecycle = lc\<rparr>"
  show ?thesis
  proof (cases rule: Wait_result_cases [of ?d sigs ?w1])
    case blocks
    then show ?thesis using None
      by (cases "Dissembler_Wait ?d sigs ?w1") (simp add: Serve_Init_ok)
  next
    case (returns s)
    then show ?thesis using None
      by (cases "Dissembler_Wait ?d sigs ?w1") (auto simp add: Serve_Init_ok)
  qed
next
  case (Some e)
  then show ?thesis
    by (cases "Init lc (app w)") (simp add: Serve_def Dissembler_Serve_def invoke_def)
qed

lemma snd_Serve_Init_ok:
  assumes "fst (Init lc (app w)) = None"
  shows "snd (Serve lc n sigs w) =
           snd (Dissembler_Wait \<lparr>lifecycle = lc\<rparr> sigs
                   (go n ((snd (invoke CInit (Init lc) w))\<lparr>serve_err := None\<rparr>)))"
  by (simp add: Serve_Init_ok [OF assms] split: prod.splits outcome.splits)

lemma snd_Serve_Init_error:
  assumes "fst (Init lc (app w)) = Some e"
  shows "snd (Serve lc n sigs w) = (snd (invoke CInit (Init lc) w))\<lparr>serve_err := Some e\<rparr>"
  using assms by (cases "Init lc (app w)") (simp add: Serve_def Dissembler_Serve_def invoke_def)

lemma invocations_serve_err [simp]: "invocations c (w\<lparr>serve_err := e\<rparr>) = invocations c w"
  by (simp add: invocations_def)

lemma error_entries_serve_err [simp]: "error_entries (w\<lparr>serve_err := e\<rparr>) = error_entries w"
  by (simp add: error_entries_def)

lemma main_trace_serve_err [simp]: "main_trace (w\<lparr>serve_err := e\<rparr>) = main_trace w"
  by (simp add: main_trace_def)

lemma invocations_Stop_Serve:
  "invocations CStop (snd (Serve lc n sigs w)) =
     (if fst (Init lc (app w)) = None \<and> (\<exists>s \<in> set sigs. s \<in> terminating)
      then Suc (invocations CStop w) else invocations CStop w)"
proof (cases "fst (Init lc (app w))")
  case None
  then show ?thesis by (simp add: snd_Serve_Init_ok invocations_Stop_Wait)
next
  case (Some e)
  then show ?thesis by (simp add: snd_Serve_Init_error)
qed

lemma invocations_Reload_Serve:
  "invocations CReload (snd (Serve lc n sigs w)) = invocations CReload w"
proof (cases "fst (Init lc (app w))")
  case None
  then show ?thesis by (simp add: snd_Serve_Init_ok invocations_other_Wait)
next
  case (Some e)
  then show ?thesis by (simp add: snd_Serve_Init_error)
qed

lemma error_entries_Serve:
  "error_entries (snd (Serve lc n sigs w)) = error_entries w"
proof (cases "fst (Init lc (app w))")
  case None
  then show ?thesis by (simp add: snd_Serve_Init_ok error_entries_Wait)
next
  case (Some e)
  then show ?thesis by (simp add: snd_Serve_Init_error)
qed

lemma Serve_discards:
  assumes "s \<in> terminating"
  shows "Serve lc n (pre @ s # post) w = Serve lc n (pre @ [s]) w"
proof (cases "fst (Init lc (app w))")
  case None
  let ?w1 = "go n ((snd (invoke CInit (Init lc) w))\<lparr>serve_err := None\<rparr>)"
  have "Dissembler_Wait \<lparr>lifecycle = lc\<rparr> (pre @ s # post) ?w1 =
        Dissembler_Wait \<lparr>lifecycle = lc\<rparr> (pre @ [s]) ?w1"
    using assms by (rule Wait_discards)
  then show ?thesis using None by (simp add: Serve_Init_ok)
next
  case (Some e)
  then show ?thesis
    by (cases "Init lc (app w)") (simp add: Serve_def Dissembler_Serve_def invoke_def)
qed

lemma yield_cong_lifecycle:
  assumes "Start (lifecycle d') = Start (lifecycle d)"
  shows "yield d' w = yield d w"
  using assms by (simp add: yield_def start_goroutine_def split: option.splits nat.splits)

lemma blocked_cong_lifecycle:
  assumes "Start (lifecycle d') = Start (lifecycle d)"
  shows "blocked d' w = blocked d w"
  using assms by (simp add: blocked_def start_goroutine_def split: option.splits)

lemma Wait_loop_cong_lifecycle:
  assumes "Start (lifecycle d') = Start (lifecycle d)"
    and "Stop (lifecycle d') = Stop (lifecycle d)"
  shows "Wait_loop d' sigs w = Wait_loop d sigs w"
proof (induction sigs arbitrary: w)
  case Nil
  show ?case by (simp add: blocked_cong_lifecycle [OF assms(1)])
next
  case (Cons x xs)
  have y: "yield d' = yield d"
    by (rule ext) (rule yield_cong_lifecycle [OF assms(1)])
  show ?case
  proof (cases "x \<in> terminating")
    case True
    then show ?thesis
      by (simp add: Wait_loop_Cons_terminating y assms(2) del: Wait_loop.simps)
  next
    case False
    then show ?thesis
      by (simp add: Wait_loop_Cons_ignored y Cons del: Wait_loop.simps)
  qed
qed

lemma Wait_Reload:
  "Dissembler_Wait \<lparr>lifecycle = lc\<lparr>Reload := r\<rparr>\<rparr> sigs w = Dissembler_Wait \<lparr>lifecycle = lc\<rparr> sigs w"
  unfolding Dissembler_Wait_def by (rule Wait_loop_cong_lifecycle) simp_all

lemma Serve_Reload: "Serve (lc\<lparr>Reload := r\<rparr>) n sigs w = Serve lc n sigs w"
proof -
  have "Dissembler_Wait \<lparr>lifecycle = lc\<lparr>Reload := r\<rparr>\<rparr> sigs = Dissembler_Wait \<lparr>lifecycle = lc\<rparr> sigs"
    by (rule ext) (rule Wait_Reload)
  then show ?thesis
    by (simp add: Serve_def Dissembler_Serve_def Let_def split: prod.split option.split)
qed

lemmas run_defs =
  Serve_def Dissembler_Serve_def Serve_finish_def Dissembler_Wait_def relayed_def
  Wait_handler_def Notify_def make_chan_def yield_def blocked_def go_def start_goroutine_def
  invoke_def log_info_def log_error_def init_world_def recorder_def Let_def

lemma relayed_HUP_USR:
  "set pre \<subseteq> {SIGHUP, SIGUSR1, SIGUSR2} \<Longrightarrow> relayed Wait_handler pre = pre"
  by (induction pre) (auto simp add: relayed_def Wait_handler_def Notify_def)

lemma HUP_USR_ignored:
  "set pre \<subseteq> {SIGHUP, SIGUSR1, SIGUSR2} \<Longrightarrow> \<forall>x \<in> set pre. x \<notin> terminating"
  by (auto simp add: terminating_def)

section \<open>The state a run leaves\<close>

lemma yield_quiet: "pending w = None \<Longrightarrow> yield d w = w"
  by (simp add: yield_def)

lemma blocked_quiet: "pending w = None \<Longrightarrow> blocked d w = w"
  by (simp add: blocked_def)

lemma yield_now:
  "pending w = Some 0 \<Longrightarrow>
   yield d w =
     w\<lparr>app := snd (Start (lifecycle d) (app w)), trace := trace w @ [Call CStart],
       serve_err := fst (Start (lifecycle d) (app w)), pending := None\<rparr>"
  by (simp add: yield_def start_goroutine_def invoke_def split: prod.splits)

lemma yield_later: "pending w = Some (Suc k) \<Longrightarrow> yield d w = w\<lparr>pending := Some k\<rparr>"
  by (simp add: yield_def)

lemma blocked_now:
  "pending w = Some k \<Longrightarrow>
   blocked d w =
     w\<lparr>app := snd (Start (lifecycle d) (app w)), trace := trace w @ [Call CStart],
       serve_err := fst (Start (lifecycle d) (app w)), pending := None\<rparr>"
  by (simp add: blocked_def start_goroutine_def invoke_def split: prod.splits)

lemma snd_invoke:
  "snd (invoke c f w) = w\<lparr>app := snd (f (app w)), trace := trace w @ [Call c]\<rparr>"
  by (simp add: invoke_def split: prod.splits)

lemma Wait_loop_quiet:
  assumes "\<forall>x \<in> set pre. x \<notin> terminating" and "s \<in> terminating"
  shows "pending w = None \<Longrightarrow>
         Wait_loop d (pre @ s # post) w =
           (Returns (s, None),
            w\<lparr>app := snd (Stop (lifecycle d) (app w)),
              trace := trace w @ map (LogInfo ''signal caught'') (pre @ [s]) @ [Call CStop]\<rparr>)"
  using assms(1)
proof (induction pre arbitrary: w)
  case Nil
  then show ?case
    using assms(2)
    by (simp add: Wait_loop_Cons_terminating yield_quiet snd_invoke log_info_def
          del: Wait_loop.simps)
next
  case (Cons x xs)
  have p: "pending (log_info ''signal caught'' x w) = None"
    using Cons.prems(1) by (simp add: log_info_def)
  have "Wait_loop d ((x # xs) @ s # post) w =
        Wait_loop d (xs @ s # post) (log_info ''signal caught'' x w)"
    using Cons.prems by (simp add: Wait_loop_Cons_ignored yield_quiet del: Wait_loop.simps)
  also have "\<dots> = (Returns (s, None),
            (log_info ''signal caught'' x w)\<lparr>app := snd (Stop (lifecycle d) (app (log_info ''signal caught'' x w))),
              trace := trace (log_info ''signal caught'' x w) @ map (LogInfo ''signal caught'') (xs @ [s]) @ [Call CStop]\<rparr>)"
    using Cons.prems(2) by (intro Cons.IH [OF p]) simp
  finally show ?case
    by (simp add: log_info_def)
qed

lemma Wait_loop_quiet_ignored:
  "\<forall>x \<in> set sigs. x \<notin> terminating \<Longrightarrow> pending w = None \<Longrightarrow>
   Wait_loop d sigs w = (Blocks, w\<lparr>trace := trace w @ map (LogInfo ''signal caught'') sigs\<rparr>)"
proof (induction sigs arbitrary: w)
  case Nil
  then show ?case by (simp add: blocked_quiet)
next
  case (Cons x xs)
  have p: "pending (log_info ''signal caught'' x w) = None"
    using Cons.prems(2) by (simp add: log_info_def)
  have "Wait_loop d (x # xs) w = Wait_loop d xs (log_info ''signal caught'' x w)"
    using Cons.prems by (simp add: Wait_loop_Cons_ignored yield_quiet del: Wait_loop.simps)
  also have "\<dots> = (Blocks, (log_info ''signal caught'' x w)\<lparr>trace := trace (log_info ''signal caught'' x w) @ map (LogInfo ''signal caught'') xs\<rparr>)"
    using Cons.prems(1) by (intro Cons.IH [OF _ p]) simp
  finally show ?case
    by (simp add: log_info_def)
qed

lemma Wait_loop_prefix_quiet:
  "\<forall>x \<in> set pre. x \<notin> terminating \<Longrightarrow> pending w = None \<Longrightarrow>
   Wait_loop d (pre @ rest) w =
     Wait_loop d rest (w\<lparr>trace := trace w @ map (LogInfo ''signal caught'') pre\<rparr>)"
proof (induction pre arbitrary: w)
  case Nil
  then show ?case by simp
next
  case (Cons x xs)
  have p: "pending (log_info ''signal caught'' x w) = None"
    using Cons.prems(2) by (simp add: log_info_def)
  have "Wait_loop d ((x # xs) @ rest) w = Wait_loop d (xs @ rest) (log_info ''signal caught'' x w)"
    using Cons.prems by (simp add: Wait_loop_Cons_ignored yield_quiet del: Wait_loop.simps)
  also have "\<dots> = Wait_loop d rest ((log_info ''signal caught'' x w)
      \<lparr>trace := trace (log_info ''signal caught'' x w) @ map (LogInfo ''signal caught'') xs\<rparr>)"
    using Cons.prems(1) by (intro Cons.IH [OF _ p]) simp
  finally show ?case
    by (simp add: log_info_def del: Wait_loop.simps)
qed

lemma Wait_loop_prefix_delay:
  "\<forall>x \<in> set pre. x \<notin> terminating \<Longrightarrow> pending w = Some k \<Longrightarrow> length pre \<le> k \<Longrightarrow>
   Wait_loop d (pre @ rest) w =
     Wait_loop d rest
       (w\<lparr>trace := trace w @ map (LogInfo ''signal caught'') pre, pending := Some (k - length pre)\<rparr>)"
proof (induction pre arbitrary: w k)
  case Nil
  then show ?case by (cases w) simp
next
  case (Cons x xs)
  obtain j where k: "k = Suc j"
    using Cons.prems(3) by (cases k) auto
  let ?w1 = "log_info ''signal caught'' x (w\<lparr>pending := Some j\<rparr>)"
  have p: "pending ?w1 = Some j"
    by (simp add: log_info_def)
  have "Wait_loop d ((x # xs) @ rest) w = Wait_loop d (xs @ rest) ?w1"
    using Cons.prems k by (simp add: Wait_loop_Cons_ignored yield_later del: Wait_loop.simps)
  also have "\<dots> = Wait_loop d rest
      (?w1\<lparr>trace := trace ?w1 @ map (LogInfo ''signal caught'') xs, pending := Some (j - length xs)\<rparr>)"
    using Cons.prems(1,3) k by (intro Cons.IH [OF _ p]) simp_all
  finally show ?case
    using k by (simp add: log_info_def del: Wait_loop.simps)
qed

lemma Wait_loop_prefix_started:
  "\<forall>x \<in> set pre. x \<notin> terminating \<Longrightarrow> pending w = Some k \<Longrightarrow> k < length pre \<Longrightarrow>
   Wait_loop d (pre @ rest) w =
     Wait_loop d rest
       (w\<lparr>app := snd (Start (lifecycle d) (app w)),
          trace := trace w @ map (LogInfo ''signal caught'') (take k pre) @ [Call CStart] @
                   map (LogInfo ''signal caught'') (drop k pre),
          serve_err := fst (Start (lifecycle d) (app w)), pending := None\<rparr>)"
proof (induction pre arbitrary: w k)
  case Nil
  then show ?case by simp
next
  case (Cons x xs)
  show ?case
  proof (cases k)
    case 0
    let ?w1 = "log_info ''signal caught'' x (yield d w)"
    have p: "pending ?w1 = None"
      using Cons.prems(2) 0 by (simp add: yield_now log_info_def)
    have "Wait_loop d ((x # xs) @ rest) w = Wait_loop d (xs @ rest) ?w1"
      using Cons.prems(1) by (simp add: Wait_loop_Cons_ignored del: Wait_loop.simps)
    also have "\<dots> = Wait_loop d rest (?w1\<lparr>trace := trace ?w1 @ map (LogInfo ''signal caught'') xs\<rparr>)"
      using Cons.prems(1) by (intro Wait_loop_prefix_quiet [OF _ p]) simp
    finally have step: "Wait_loop d ((x # xs) @ rest) w =
        Wait_loop d rest (?w1\<lparr>trace := trace ?w1 @ map (LogInfo ''signal caught'') xs\<rparr>)" .
    obtain a t e q where w: "w = \<lparr>app = a, trace = t, serve_err = e, pending = q\<rparr>"
      by (cases w)
    show ?thesis
      using Cons.prems(2) 0 unfolding step by (simp add: w yield_now log_info_def del: Wait_loop.simps)
  next
    case (Suc j)
    let ?w1 = "log_info ''signal caught'' x (w\<lparr>pending := Some j\<rparr>)"
    have p: "pending ?w1 = Some j"
      by (simp add: log_info_def)
    have "Wait_loop d ((x # xs) @ rest) w = Wait_loop d (xs @ rest) ?w1"
      using Cons.prems Suc by (simp add: Wait_loop_Cons_ignored yield_later del: Wait_loop.simps)
    also have "\<dots> = Wait_loop d rest
       (?w1\<lparr>app := snd (Start (lifecycle d) (app ?w1)),
          trace := trace ?w1 @ map (LogInfo ''signal caught'') (take j xs) @ [Call CStart] @
                   map (LogInfo ''signal caught'') (drop j xs),
          serve_err := fst (Start (lifecycle d) (app ?w1)), pending := None\<rparr>)"
      using Cons.prems(1,3) Suc by (intro Cons.IH [OF _ p]) simp_all
    finally show ?thesis
      using Suc by (simp add: log_info_def del: Wait_loop.simps)
  qed
qed

text \<open>The iteration that receives a terminating signal, by the state of the goroutine.\<close>

lemma Wait_loop_stop_quiet:
  "s \<in> terminating \<Longrightarrow> pending w = None \<Longrightarrow>
   Wait_loop d (s # post) w =
     (Returns (s, None),
      w\<lparr>app := snd (Stop (lifecycle d) (app w)),
        trace := trace w @ [LogInfo ''signal caught'' s, Call CStop]\<rparr>)"
  by (simp add: Wait_loop_Cons_terminating yield_quiet snd_invoke log_info_def del: Wait_loop.simps)

lemma Wait_loop_stop_0:
  "s \<in> terminating \<Longrightarrow> pending w = Some 0 \<Longrightarrow>
   Wait_loop d (s # post) w =
     (Returns (s, None),
      w\<lparr>app := snd (Stop (lifecycle d) (snd (Start (lifecycle d) (app w)))),
        trace := trace w @ [Call CStart, LogInfo ''signal caught'' s, Call CStop],
        serve_err := fst (Start (lifecycle d) (app w)), pending := None\<rparr>)"
  by (simp add: Wait_loop_Cons_terminating yield_now yield_quiet snd_invoke log_info_def
        del: Wait_loop.simps)

lemma Wait_loop_stop_1:
  "s \<in> terminating \<Longrightarrow> pending w = Some (Suc 0) \<Longrightarrow>
   Wait_loop d (s # post) w =
     (Returns (s, None),
      w\<lparr>app := snd (Stop (lifecycle d) (snd (Start (lifecycle d) (app w)))),
        trace := trace w @ [LogInfo ''signal caught'' s, Call CStart, Call CStop],
        serve_err := fst (Start (lifecycle d) (app w)), pending := None\<rparr>)"
  by (simp add: Wait_loop_Cons_terminating yield_later yield_now yield_quiet snd_invoke log_info_def
        del: Wait_loop.simps)

lemma Wait_loop_stop_2:
  "s \<in> terminating \<Longrightarrow> pending w = Some (Suc (Suc 0)) \<Longrightarrow>
   Wait_loop d (s # post) w =
     (Returns (s, None),
      w\<lparr>app := snd (Start (lifecycle d) (snd (Stop (lifecycle d) (app w)))),
        trace := trace w @ [LogInfo ''signal caught'' s, Call CStop, Call CStart],
        serve_err := fst (Start (lifecycle d) (snd (Stop (lifecycle d) (app w)))), pending := None\<rparr>)"
  by (simp add: Wait_loop_Cons_terminating yield_later yield_now snd_invoke log_info_def
        del: Wait_loop.simps)

lemma Wait_loop_stop_3:
  "s \<in> terminating \<Longrightarrow> pending w = Some (Suc (Suc (Suc j))) \<Longrightarrow>
   Wait_loop d (s # post) w =
     (Returns (s, None),
      w\<lparr>app := snd (Stop (lifecycle d) (app w)),
        trace := trace w @ [LogInfo ''signal caught'' s, Call CStop],
        pending := Some j\<rparr>)"
  by (simp add: Wait_loop_Cons_terminating yield_later snd_invoke log_info_def
        del: Wait_loop.simps)

lemma app_Wait_loop_terminating:
  assumes pre: "\<forall>x \<in> set pre. x \<notin> terminating" and s: "s \<in> terminating"
  shows "app (snd (Wait_loop d (pre @ s # post) w)) =
     (case pending w of
        None \<Rightarrow> snd (Stop (lifecycle d) (app w))
      | Some k \<Rightarrow>
          if k \<le> Suc (length pre) then snd (Stop (lifecycle d) (snd (Start (lifecycle d) (app w))))
          else if k = Suc (Suc (length pre))
          then snd (Start (lifecycle d) (snd (Stop (lifecycle d) (app w))))
          else snd (Stop (lifecycle d) (app w)))"
proof (cases "pending w")
  case None
  then show ?thesis
    by (simp add: Wait_loop_quiet [OF pre s] del: Wait_loop.simps)
next
  case (Some k)
  show ?thesis
  proof (cases "k < length pre")
    case True
    have "Wait_loop d (pre @ s # post) w =
      Wait_loop d (s # post)
       (w\<lparr>app := snd (Start (lifecycle d) (app w)),
          trace := trace w @ map (LogInfo ''signal caught'') (take k pre) @ [Call CStart] @
                   map (LogInfo ''signal caught'') (drop k pre),
          serve_err := fst (Start (lifecycle d) (app w)), pending := None\<rparr>)"
      using pre Some True by (rule Wait_loop_prefix_started)
    then show ?thesis
      using Some True s by (simp add: Wait_loop_stop_quiet del: Wait_loop.simps)
  next
    case False
    let ?w1 = "w\<lparr>trace := trace w @ map (LogInfo ''signal caught'') pre,
                 pending := Some (k - length pre)\<rparr>"
    have step: "Wait_loop d (pre @ s # post) w = Wait_loop d (s # post) ?w1"
      using pre Some False by (intro Wait_loop_prefix_delay) simp_all
    consider "k - length pre = 0" | "k - length pre = Suc 0" | "k - length pre = Suc (Suc 0)"
      | j where "k - length pre = Suc (Suc (Suc j))"
      by (metis not0_implies_Suc)
    then show ?thesis
    proof cases
      case 1
      then have "pending ?w1 = Some 0" by simp
      moreover have "k \<le> Suc (length pre)" using 1 False by arith
      ultimately show ?thesis
        using Some s unfolding step
        by (simp add: Wait_loop_stop_0 del: Wait_loop.simps)
    next
      case 2
      then have "pending ?w1 = Some (Suc 0)" by simp
      moreover have "k \<le> Suc (length pre)" using 2 by arith
      ultimately show ?thesis
        using Some s unfolding step
        by (simp add: Wait_loop_stop_1 del: Wait_loop.simps)
    next
      case 3
      then have "pending ?w1 = Some (Suc (Suc 0))" by simp
      moreover have "k = Suc (Suc (length pre))" "\<not> k \<le> Suc (length pre)" using 3 by arith+
      ultimately show ?thesis
        using Some s unfolding step
        by (simp add: Wait_loop_stop_2 del: Wait_loop.simps)
    next
      case (4 j)
      then have "pending ?w1 = Some (Suc (Suc (Suc j)))" by simp
      moreover have "\<not> k \<le> Suc (length pre)" "k \<noteq> Suc (Suc (length pre))" using 4 by arith+
      ultimately show ?thesis
        using Some s unfolding step
        by (simp add: Wait_loop_stop_3 del: Wait_loop.simps)
    qed
  qed
qed

lemma app_Wait_loop_ignored:
  assumes sigs: "\<forall>x \<in> set sigs. x \<notin> terminating"
  shows "app (snd (Wait_loop d sigs w)) =
     (case pending w of None \<Rightarrow> app w | Some k \<Rightarrow> snd (Start (lifecycle d) (app w)))"
proof (cases "pending w")
  case None
  then show ?thesis
    by (simp add: Wait_loop_quiet_ignored [OF sigs] del: Wait_loop.simps)
next
  case (Some k)
  show ?thesis
  proof (cases "k < length sigs")
    case True
    have "Wait_loop d (sigs @ []) w =
      Wait_loop d []
       (w\<lparr>app := snd (Start (lifecycle d) (app w)),
          trace := trace w @ map (LogInfo ''signal caught'') (take k sigs) @ [Call CStart] @
                   map (LogInfo ''signal caught'') (drop k sigs),
          serve_err := fst (Start (lifecycle d) (app w)), pending := None\<rparr>)"
      using sigs Some True by (rule Wait_loop_prefix_started)
    then show ?thesis
      using Some by (simp add: blocked_quiet)
  next
    case False
    have "Wait_loop d (sigs @ []) w =
      Wait_loop d []
        (w\<lparr>trace := trace w @ map (LogInfo ''signal caught'') sigs,
           pending := Some (k - length sigs)\<rparr>)"
      using sigs Some False by (intro Wait_loop_prefix_delay) simp_all
    then show ?thesis
      using Some by (simp add: blocked_now [where k = "k - length sigs"])
  qed
qed

lemma app_Wait_terminating:
  assumes pre: "\<forall>x \<in> set pre. x \<notin> terminating" and s: "s \<in> terminating"
  shows "app (snd (Dissembler_Wait d (pre @ s # post) w)) =
     (case pending w of
        None \<Rightarrow> snd (Stop (lifecycle d) (app w))
      | Some k \<Rightarrow>
          if k \<le> Suc (length (relayed Wait_handler pre))
          then snd (Stop (lifecycle d) (snd (Start (lifecycle d) (app w))))
          else if k = Suc (Suc (length (relayed Wait_handler pre)))
          then snd (Start (lifecycle d) (snd (Stop (lifecycle d) (app w))))
          else snd (Stop (lifecycle d) (app w)))"
proof -
  have "\<forall>x \<in> set (relayed Wait_handler pre). x \<notin> terminating"
    using pre by (rule relayed_ignored)
  then show ?thesis
    using s
    by (simp add: Dissembler_Wait_def relayed_append relayed_Cons_terminating
          app_Wait_loop_terminating del: Wait_loop.simps)
qed

lemma app_Wait_ignored:
  assumes sigs: "\<forall>x \<in> set sigs. x \<notin> terminating"
  shows "app (snd (Dissembler_Wait d sigs w)) =
     (case pending w of None \<Rightarrow> app w | Some k \<Rightarrow> snd (Start (lifecycle d) (app w)))"
proof -
  have "\<forall>x \<in> set (relayed Wait_handler sigs). x \<notin> terminating"
    using sigs by (rule relayed_ignored)
  then show ?thesis
    by (simp add: Dissembler_Wait_def app_Wait_loop_ignored del: Wait_loop.simps)
qed

lemma app_Serve_terminating:
  assumes init: "fst (Init lc (app w)) = None"
    and pre: "\<forall>x \<in> set pre. x \<notin> terminating" and s: "s \<in> terminating"
  shows "app (snd (Serve lc n (pre @ s # post) w)) =
     (if n \<le> Suc (length (relayed Wait_handler pre))
      then snd (Stop lc (snd (Start lc (snd (Init lc (app w))))))
      else if n = Suc (Suc (length (relayed Wait_handler pre)))
      then snd (Start lc (snd (Stop lc (snd (Init lc (app w))))))
      else snd (Stop lc (snd (Init lc (app w)))))"
  by (simp add: snd_Serve_Init_ok [OF init] app_Wait_terminating [OF pre s] go_def snd_invoke)

lemma app_Serve_ignored:
  assumes init: "fst (Init lc (app w)) = None"
    and sigs: "\<forall>x \<in> set sigs. x \<notin> terminating"
  shows "app (snd (Serve lc n sigs w)) = snd (Start lc (snd (Init lc (app w))))"
  by (simp add: snd_Serve_Init_ok [OF init] app_Wait_ignored [OF sigs] go_def snd_invoke)

lemma Serve_recorder_run:
  "Serve (recorder None rs rp) n [SIGINT] (init_world []) =
     (Returns None,
      if n = 0 then
        \<lparr>app = [''Init'', ''Start'', ''Stop''],
         trace = [Call CInit, Call CStart, LogInfo ''signal caught'' SIGINT, Call CStop],
         serve_err = rs, pending = None\<rparr>
      else if n = 1 then
        \<lparr>app = [''Init'', ''Start'', ''Stop''],
         trace = [Call CInit, LogInfo ''signal caught'' SIGINT, Call CStart, Call CStop],
         serve_err = rs, pending = None\<rparr>
      else if n = 2 then
        \<lparr>app = [''Init'', ''Stop'', ''Start''],
         trace = [Call CInit, LogInfo ''signal caught'' SIGINT, Call CStop, Call CStart],
         serve_err = rs, pending = None\<rparr>
      else
        \<lparr>app = [''Init'', ''Stop''],
         trace = [Call CInit, LogInfo ''signal caught'' SIGINT, Call CStop],
         serve_err = None, pending = Some (n - 3)\<rparr>)"
proof -
  consider "n = 0" | "n = 1" | "n = 2" | k where "n = Suc (Suc (Suc k))"
    by (metis One_nat_def Suc_1 not0_implies_Suc)
  then show ?thesis
    by cases (simp_all add: run_defs)
qed

lemma Wait_quiet:
  assumes "\<forall>x \<in> set pre. x \<notin> terminating" and "s \<in> terminating" and "pending w = None"
  shows "Dissembler_Wait d (pre @ s # post) w =
           (Returns (s, None),
            w\<lparr>app := snd (Stop (lifecycle d) (app w)),
              trace := trace w @ map (LogInfo ''signal caught'') (relayed Wait_handler pre @ [s]) @
                       [Call CStop]\<rparr>)"
proof -
  have "\<forall>x \<in> set (relayed Wait_handler pre). x \<notin> terminating"
    using assms(1) by (rule relayed_ignored)
  then show ?thesis
    using assms(2,3)
    by (simp add: Dissembler_Wait_def relayed_append relayed_Cons_terminating Wait_loop_quiet
          del: Wait_loop.simps)
qed

lemma Wait_quiet_ignored:
  assumes "\<forall>x \<in> set sigs. x \<notin> terminating" and "pending w = None"
  shows "Dissembler_Wait d sigs w =
           (Blocks, w\<lparr>trace := trace w @ map (LogInfo ''signal caught'') (relayed Wait_handler sigs)\<rparr>)"
proof -
  have "\<forall>x \<in> set (relayed Wait_handler sigs). x \<notin> terminating"
    using assms(1) by (rule relayed_ignored)
  then show ?thesis
    using assms(2)
    by (simp add: Dissembler_Wait_def Wait_loop_quiet_ignored del: Wait_loop.simps)
qed

section \<open>The first terminating signal\<close>

text \<open>
  C1. Let \<open>s\<close> be \<^verbatim>\<open>SIGINT\<close>, \<^verbatim>\<open>SIGQUIT\<close> or \<^verbatim>\<open>SIGTERM\<close>, raised after signals \<open>pre\<close> none of
  which is one of these three. Then \<^verbatim>\<open>Wait\<close> returns \<open>(s, nil)\<close>, whatever \<^verbatim>\<open>Stop\<close> returns.
  It calls \<^verbatim>\<open>Stop\<close> exactly once: one call is added to the trace, as the last event of
  the goroutine that runs \<^verbatim>\<open>Wait\<close>, after the log entry for \<open>s\<close>; and the application is
  left in the state that one application of \<^verbatim>\<open>Stop\<close> produces (before or after the one
  of \<^verbatim>\<open>Start\<close>, when the goroutine of \<^verbatim>\<open>Serve\<close> is still to run). With no goroutine pending the
  whole state after \<^verbatim>\<open>Wait\<close> is given. \<^verbatim>\<open>Wait\<close> returns in no other way: it blocks
  exactly when no terminating signal is raised, and what it returns is a terminating signal
  that was raised, with no error.
\<close>

theorem Wait_first_terminating:
  "(s \<in> terminating \<longrightarrow> (\<forall>x \<in> set pre. x \<notin> terminating) \<longrightarrow>
      fst (Dissembler_Wait d (pre @ s # post) w) = Returns (s, None) \<and>
      invocations CStop (snd (Dissembler_Wait d (pre @ s # post) w)) = Suc (invocations CStop w) \<and>
      main_trace (snd (Dissembler_Wait d (pre @ s # post) w)) =
        main_trace w @ map (LogInfo ''signal caught'') (relayed Wait_handler pre @ [s]) @ [Call CStop] \<and>
      app (snd (Dissembler_Wait d (pre @ s # post) w)) =
        (case pending w of
           None \<Rightarrow> snd (Stop (lifecycle d) (app w))
         | Some k \<Rightarrow>
             if k \<le> Suc (length (relayed Wait_handler pre))
             then snd (Stop (lifecycle d) (snd (Start (lifecycle d) (app w))))
             else if k = Suc (Suc (length (relayed Wait_handler pre)))
             then snd (Start (lifecycle d) (snd (Stop (lifecycle d) (app w))))
             else snd (Stop (lifecycle d) (app w))) \<and>
      (pending w = None \<longrightarrow>
         Dissembler_Wait d (pre @ s # post) w =
           (Returns (s, None),
            w\<lparr>app := snd (Stop (lifecycle d) (app w)),
              trace := trace w @ map (LogInfo ''signal caught'') (relayed Wait_handler pre @ [s]) @
                       [Call CStop]\<rparr>))) \<and>
   ((fst (Dissembler_Wait d sigs w) = Blocks) = (\<forall>x \<in> set sigs. x \<notin> terminating)) \<and>
   (\<forall>r. fst (Dissembler_Wait d sigs w) = Returns r \<longrightarrow>
      fst r \<in> terminating \<and> fst r \<in> set sigs \<and> snd r = None)"
proof (intro conjI impI allI)
  assume s: "s \<in> terminating" and pre: "\<forall>x \<in> set pre. x \<notin> terminating"
  show "fst (Dissembler_Wait d (pre @ s # post) w) = Returns (s, None)"
    by (simp add: fst_Wait find_terminating_first [OF pre s])
  show "invocations CStop (snd (Dissembler_Wait d (pre @ s # post) w)) = Suc (invocations CStop w)"
    using s by (auto simp add: invocations_Stop_Wait)
  show "main_trace (snd (Dissembler_Wait d (pre @ s # post) w)) =
        main_trace w @ map (LogInfo ''signal caught'') (relayed Wait_handler pre @ [s]) @ [Call CStop]"
    using pre s by (rule main_trace_Wait_terminating)
  show "app (snd (Dissembler_Wait d (pre @ s # post) w)) =
        (case pending w of
           None \<Rightarrow> snd (Stop (lifecycle d) (app w))
         | Some k \<Rightarrow>
             if k \<le> Suc (length (relayed Wait_handler pre))
             then snd (Stop (lifecycle d) (snd (Start (lifecycle d) (app w))))
             else if k = Suc (Suc (length (relayed Wait_handler pre)))
             then snd (Start (lifecycle d) (snd (Stop (lifecycle d) (app w))))
             else snd (Stop (lifecycle d) (app w)))"
    using pre s by (rule app_Wait_terminating)
  show "Dissembler_Wait d (pre @ s # post) w =
           (Returns (s, None),
            w\<lparr>app := snd (Stop (lifecycle d) (app w)),
              trace := trace w @ map (LogInfo ''signal caught'') (relayed Wait_handler pre @ [s]) @
                       [Call CStop]\<rparr>)"
    if "pending w = None"
    using pre s that by (rule Wait_quiet)
next
  show "(fst (Dissembler_Wait d sigs w) = Blocks) = (\<forall>x \<in> set sigs. x \<notin> terminating)"
  proof (cases rule: Wait_result_cases [of d sigs w])
    case blocks
    then show ?thesis by simp
  next
    case (returns s')
    then show ?thesis by auto
  qed
next
  fix r assume r: "fst (Dissembler_Wait d sigs w) = Returns r"
  have "fst r \<in> terminating \<and> fst r \<in> set sigs \<and> snd r = None"
  proof (cases rule: Wait_result_cases [of d sigs w])
    case blocks
    then show ?thesis using r by simp
  next
    case (returns s')
    then show ?thesis using r by simp
  qed
  then show "fst r \<in> terminating" "fst r \<in> set sigs" "snd r = None"
    by simp_all
qed

theorem Wait_first_terminating_witness:
  "SIGQUIT \<in> terminating \<and> SIGHUP \<notin> terminating \<and> SIGUSR1 \<notin> terminating \<and>
   fst (Stop (recorder None None (Some ''stop failed'')) []) = Some ''stop failed'' \<and>
   pending (init_world ([] :: string list)) = None \<and>
   Dissembler_Wait \<lparr>lifecycle = recorder None None (Some ''stop failed'')\<rparr>
       [SIGHUP, SIGUSR1, SIGQUIT, SIGTERM] (init_world []) =
     (Returns (SIGQUIT, None),
      \<lparr>app = [''Stop''],
       trace = [LogInfo ''signal caught'' SIGHUP, LogInfo ''signal caught'' SIGUSR1,
                LogInfo ''signal caught'' SIGQUIT, Call CStop],
       serve_err = None, pending = None\<rparr>) \<and>
   app (snd (Dissembler_Wait \<lparr>lifecycle = recorder None None (Some ''stop failed'')\<rparr>
       [SIGHUP, SIGUSR1, SIGQUIT, SIGTERM] (go 4 (init_world [])))) = [''Stop'', ''Start''] \<and>
   invocations CStop (snd (Dissembler_Wait \<lparr>lifecycle = recorder None None (Some ''stop failed'')\<rparr>
       [SIGHUP, SIGUSR1, SIGQUIT, SIGTERM] (go 4 (init_world [])))) = Suc 0 \<and>
   fst (Dissembler_Wait \<lparr>lifecycle = recorder None None (Some ''stop failed'')\<rparr>
          [SIGHUP, SIGUSR2] (init_world [])) = Blocks"
proof -
  let ?d = "\<lparr>lifecycle = recorder None None (Some ''stop failed'')\<rparr>"
  let ?w = "init_world [] :: string list world"
  have s: "SIGQUIT \<in> terminating" and h: "SIGHUP \<notin> terminating" and u: "SIGUSR1 \<notin> terminating"
    and u2: "SIGUSR2 \<notin> terminating"
    by (simp_all add: terminating_def)
  have pre: "\<forall>x \<in> set [SIGHUP, SIGUSR1]. x \<notin> terminating"
    using h u by simp
  have stop: "fst (Stop (recorder None None (Some ''stop failed'')) []) = Some ''stop failed''"
    by (simp add: recorder_def)
  have p: "pending ?w = None"
    by (simp add: init_world_def)
  have rel: "relayed Wait_handler [SIGHUP, SIGUSR1] = [SIGHUP, SIGUSR1]"
    by (simp add: relayed_def Wait_handler_def Notify_def)
  note thq = Wait_first_terminating [where s = SIGQUIT and pre = "[SIGHUP, SIGUSR1]"
      and post = "[SIGTERM]" and d = ?d and w = ?w,
      THEN conjunct1, THEN mp, OF s, THEN mp, OF pre]
  note thg = Wait_first_terminating [where s = SIGQUIT and pre = "[SIGHUP, SIGUSR1]"
      and post = "[SIGTERM]" and d = ?d and w = "go 4 ?w",
      THEN conjunct1, THEN mp, OF s, THEN mp, OF pre]
  have a: "Dissembler_Wait ?d [SIGHUP, SIGUSR1, SIGQUIT, SIGTERM] ?w =
     (Returns (SIGQUIT, None),
      \<lparr>app = [''Stop''],
       trace = [LogInfo ''signal caught'' SIGHUP, LogInfo ''signal caught'' SIGUSR1,
                LogInfo ''signal caught'' SIGQUIT, Call CStop],
       serve_err = None, pending = None\<rparr>)"
    using thq [THEN conjunct2, THEN conjunct2, THEN conjunct2, THEN conjunct2, THEN mp, OF p]
    by (simp add: rel init_world_def recorder_def)
  have b: "app (snd (Dissembler_Wait ?d [SIGHUP, SIGUSR1, SIGQUIT, SIGTERM] (go 4 ?w))) =
      [''Stop'', ''Start'']"
    using thg [THEN conjunct2, THEN conjunct2, THEN conjunct2, THEN conjunct1]
    by (simp add: rel init_world_def recorder_def go_def)
  have c: "invocations CStop (snd (Dissembler_Wait ?d [SIGHUP, SIGUSR1, SIGQUIT, SIGTERM] (go 4 ?w))) =
      Suc 0"
    using thg [THEN conjunct2, THEN conjunct1]
    by (simp add: init_world_def go_def invocations_def)
  have e: "fst (Dissembler_Wait ?d [SIGHUP, SIGUSR2] ?w) = Blocks"
    using Wait_first_terminating [where d = ?d and sigs = "[SIGHUP, SIGUSR2]" and w = ?w,
        THEN conjunct2, THEN conjunct1] h u2
    by simp
  show ?thesis
    using s h u stop p a b c e by (intro conjI)
qed

section \<open>One terminating signal for each call of Serve\<close>

text \<open>
  C2. Whatever signals are raised, a call of \<^verbatim>\<open>Serve\<close> calls \<^verbatim>\<open>Stop\<close> at most once. When
  \<open>s\<close> is the first terminating signal raised (\<^verbatim>\<open>SIGINT\<close>, \<^verbatim>\<open>SIGQUIT\<close> or \<^verbatim>\<open>SIGTERM\<close>),
  \<^verbatim>\<open>Wait\<close> returns \<open>s\<close> and every signal raised after \<open>s\<close> is discarded: the run is the run
  in which nothing follows \<open>s\<close>. In that run \<^verbatim>\<open>Stop\<close> is called exactly once: one call is
  recorded, and the application is left in the state that \<^verbatim>\<open>Init\<close>, one application of
  \<^verbatim>\<open>Stop\<close> and at most one of \<^verbatim>\<open>Start\<close> produce, in the order the scheduler chose. When
  no terminating signal is raised \<^verbatim>\<open>Stop\<close> is not applied at all.
\<close>

theorem Serve_one_terminating_signal:
  "invocations CStop (snd (Serve lc n sigs w)) \<le> Suc (invocations CStop w) \<and>
   (fst (Init lc (app w)) = None \<longrightarrow> (\<forall>x \<in> set sigs. x \<notin> terminating) \<longrightarrow>
      app (snd (Serve lc n sigs w)) = snd (Start lc (snd (Init lc (app w)))) \<and>
      invocations CStop (snd (Serve lc n sigs w)) = invocations CStop w) \<and>
   (s \<in> terminating \<longrightarrow> (\<forall>x \<in> set pre. x \<notin> terminating) \<longrightarrow>
      Serve lc n (pre @ s # post) w = Serve lc n (pre @ [s]) w \<and>
      Dissembler_Wait d (pre @ s # post) w' = Dissembler_Wait d (pre @ [s]) w' \<and>
      fst (Dissembler_Wait d (pre @ s # post) w') = Returns (s, None) \<and>
      invocations CStop (snd (Dissembler_Wait d (pre @ s # post) w')) = Suc (invocations CStop w') \<and>
      (fst (Init lc (app w)) = None \<longrightarrow>
         invocations CStop (snd (Serve lc n (pre @ s # post) w)) = Suc (invocations CStop w) \<and>
         app (snd (Serve lc n (pre @ s # post) w)) =
           (if n \<le> Suc (length (relayed Wait_handler pre))
            then snd (Stop lc (snd (Start lc (snd (Init lc (app w))))))
            else if n = Suc (Suc (length (relayed Wait_handler pre)))
            then snd (Start lc (snd (Stop lc (snd (Init lc (app w))))))
            else snd (Stop lc (snd (Init lc (app w)))))))"
proof (intro conjI impI)
  show "invocations CStop (snd (Serve lc n sigs w)) \<le> Suc (invocations CStop w)"
    by (simp add: invocations_Stop_Serve)
next
  assume init: "fst (Init lc (app w)) = None" and sigs: "\<forall>x \<in> set sigs. x \<notin> terminating"
  show "app (snd (Serve lc n sigs w)) = snd (Start lc (snd (Init lc (app w))))"
    using init sigs by (rule app_Serve_ignored)
  show "invocations CStop (snd (Serve lc n sigs w)) = invocations CStop w"
    using sigs by (simp add: invocations_Stop_Serve)
next
  assume s: "s \<in> terminating" and pre: "\<forall>x \<in> set pre. x \<notin> terminating"
  show "Serve lc n (pre @ s # post) w = Serve lc n (pre @ [s]) w"
    using s by (rule Serve_discards)
  show "Dissembler_Wait d (pre @ s # post) w' = Dissembler_Wait d (pre @ [s]) w'"
    using s by (rule Wait_discards)
  show "fst (Dissembler_Wait d (pre @ s # post) w') = Returns (s, None)"
    by (simp add: fst_Wait find_terminating_first [OF pre s])
  show "invocations CStop (snd (Dissembler_Wait d (pre @ s # post) w')) = Suc (invocations CStop w')"
    using s by (auto simp add: invocations_Stop_Wait)
  assume init: "fst (Init lc (app w)) = None"
  show "invocations CStop (snd (Serve lc n (pre @ s # post) w)) = Suc (invocations CStop w)"
    using s init by (auto simp add: invocations_Stop_Serve)
  show "app (snd (Serve lc n (pre @ s # post) w)) =
           (if n \<le> Suc (length (relayed Wait_handler pre))
            then snd (Stop lc (snd (Start lc (snd (Init lc (app w))))))
            else if n = Suc (Suc (length (relayed Wait_handler pre)))
            then snd (Start lc (snd (Stop lc (snd (Init lc (app w))))))
            else snd (Stop lc (snd (Init lc (app w)))))"
    using init pre s by (rule app_Serve_terminating)
qed

theorem Serve_one_terminating_signal_witness:
  "SIGINT \<in> terminating \<and>
   fst (Init (recorder None None None) (app (init_world []))) = None \<and>
   Serve (recorder None None None) 0 [SIGINT, SIGTERM] (init_world []) =
     Serve (recorder None None None) 0 [SIGINT] (init_world []) \<and>
   fst (Dissembler_Wait \<lparr>lifecycle = recorder None None None\<rparr> [SIGINT, SIGTERM] (init_world [])) =
     Returns (SIGINT, None) \<and>
   invocations CStop (snd (Serve (recorder None None None) 0 [SIGINT, SIGTERM] (init_world []))) = Suc 0 \<and>
   app (snd (Serve (recorder None None None) 0 [SIGINT, SIGTERM] (init_world []))) =
     [''Init'', ''Start'', ''Stop''] \<and>
   trace (snd (Serve (recorder None None None) 0 [SIGINT, SIGTERM] (init_world []))) =
     [Call CInit, Call CStart, LogInfo ''signal caught'' SIGINT, Call CStop] \<and>
   SIGHUP \<notin> terminating \<and>
   app (snd (Serve (recorder None None None) 0 [SIGHUP, SIGHUP] (init_world []))) =
     [''Init'', ''Start'']"
proof -
  let ?lc = "recorder None None None"
  let ?w = "init_world [] :: string list world"
  have s: "SIGINT \<in> terminating" and h: "SIGHUP \<notin> terminating"
    by (simp_all add: terminating_def)
  have pre: "\<forall>x \<in> set []. x \<notin> terminating"
    by simp
  have hups: "\<forall>x \<in> set [SIGHUP, SIGHUP]. x \<notin> terminating"
    using h by simp
  have init: "fst (Init ?lc (app ?w)) = None"
    by (simp add: recorder_def)
  have run: "trace (snd (Serve ?lc 0 [SIGINT, SIGTERM] ?w)) =
     [Call CInit, Call CStart, LogInfo ''signal caught'' SIGINT, Call CStop]"
    by (simp add: run_defs)
  note th = Serve_one_terminating_signal [where s = SIGINT and pre = "[]" and post = "[SIGTERM]"
      and lc = ?lc and n = 0 and w = ?w and d = "\<lparr>lifecycle = ?lc\<rparr>" and w' = ?w
      and sigs = "[SIGHUP, SIGHUP]"]
  note first = th [THEN conjunct2, THEN conjunct2, THEN mp, OF s, THEN mp, OF pre]
  have a: "Serve ?lc 0 [SIGINT, SIGTERM] ?w = Serve ?lc 0 [SIGINT] ?w"
    using first [THEN conjunct1] by simp
  have b: "fst (Dissembler_Wait \<lparr>lifecycle = ?lc\<rparr> [SIGINT, SIGTERM] ?w) = Returns (SIGINT, None)"
    using first [THEN conjunct2, THEN conjunct2, THEN conjunct1] by simp
  note serve = first [THEN conjunct2, THEN conjunct2, THEN conjunct2, THEN conjunct2, THEN mp, OF init]
  have c: "invocations CStop (snd (Serve ?lc 0 [SIGINT, SIGTERM] ?w)) = Suc 0"
    using serve [THEN conjunct1] by (simp add: invocations_def init_world_def)
  have e: "app (snd (Serve ?lc 0 [SIGINT, SIGTERM] ?w)) = [''Init'', ''Start'', ''Stop'']"
    using serve [THEN conjunct2] by (simp add: init_world_def recorder_def)
  have f: "app (snd (Serve ?lc 0 [SIGHUP, SIGHUP] ?w)) = [''Init'', ''Start'']"
    using th [THEN conjunct2, THEN conjunct1, THEN mp, OF init, THEN mp, OF hups, THEN conjunct1]
    by (simp add: init_world_def recorder_def)
  show ?thesis
    using s init a b c e run h f by (intro conjI)
qed

section \<open>Failure of Init\<close>

text \<open>
  C3. When \<open>Init\<close> returns the error \<open>e\<close>, \<open>Serve\<close> returns exactly \<open>e\<close>. The state it leaves
  is the state \<open>Init\<close> left, with the one call of \<open>Init\<close> added to the trace: neither
  \<open>Start\<close> nor \<open>Stop\<close> has been called, no goroutine has been spawned, and nothing has been
  logged, so the wait loop has not been entered.
\<close>

theorem Serve_Init_error:
  assumes "fst (Init lc (app w)) = Some e"
  shows "Serve lc n sigs w =
           (Returns (Some e),
            w\<lparr>app := snd (Init lc (app w)), trace := trace w @ [Call CInit],
              serve_err := Some e\<rparr>)"
  using assms
  by (cases "Init lc (app w)") (simp add: Serve_def Dissembler_Serve_def invoke_def)

theorem Serve_Init_error_witness:
  "fst (Init (recorder (Some ''init failed'') None None) (app (init_world []))) = Some ''init failed'' \<and>
   Serve (recorder (Some ''init failed'') None None) 0 [SIGHUP, SIGTERM] (init_world []) =
     (Returns (Some ''init failed''),
      \<lparr>app = [''Init''], trace = [Call CInit], serve_err = Some ''init failed'', pending = None\<rparr>)"
  using Serve_Init_error [where lc = "recorder (Some ''init failed'') None None" and w = "init_world []"
      and e = "''init failed''" and n = 0 and sigs = "[SIGHUP, SIGTERM]"]
  by (simp add: init_world_def recorder_def)

section \<open>Serve returns nil once Wait has returned\<close>

text \<open>
  C4. When \<^verbatim>\<open>Init\<close> succeeds, \<^verbatim>\<open>Serve\<close> returns exactly when \<^verbatim>\<open>Wait\<close> returns, that is when
  a terminating signal is raised, and what it returns is \<^verbatim>\<open>nil\<close>: no value other than
  \<^verbatim>\<open>nil\<close> is ever returned, whatever \<^verbatim>\<open>Start\<close> and \<^verbatim>\<open>Stop\<close> return. The lines that follow
  \<^verbatim>\<open>Wait\<close> (119-125) return \<^verbatim>\<open>nil\<close> for every result of \<^verbatim>\<open>Wait\<close>: an error of \<^verbatim>\<open>Wait\<close> is
  logged and nothing more.
\<close>

theorem Serve_returns_nil:
  assumes "fst (Init lc (app w)) = None"
  shows "fst (Serve lc n sigs w) =
           (if \<exists>s \<in> set sigs. s \<in> terminating then Returns None else Blocks) \<and>
         (\<forall>r. fst (Serve lc n sigs w) = Returns r \<longrightarrow> r = None) \<and>
         (fst (Dissembler_Wait \<lparr>lifecycle = lc\<rparr> sigs w') \<noteq> Blocks \<longrightarrow>
            fst (Serve lc n sigs w) = Returns None) \<and>
         Serve lc n sigs w =
           (case Dissembler_Wait \<lparr>lifecycle = lc\<rparr> sigs
                   (go n ((snd (invoke CInit (Init lc) w))\<lparr>serve_err := None\<rparr>)) of
              (Blocks, w2) \<Rightarrow> (Blocks, w2)
            | (Returns r, w2) \<Rightarrow> (Returns (fst (Serve_finish r w2)), snd (Serve_finish r w2))) \<and>
         Serve_finish (sg, None) w' = (None, w') \<and>
         Serve_finish (sg, Some e) w' =
           (None, log_error ''Unable to finish waiting for Dissembler to shutdown'' e w')"
proof (intro conjI allI impI)
  show 1: "fst (Serve lc n sigs w) =
           (if \<exists>s \<in> set sigs. s \<in> terminating then Returns None else Blocks)"
    using assms by (simp add: fst_Serve)
  show "r = None" if "fst (Serve lc n sigs w) = Returns r" for r
    using that 1 by (simp split: if_splits)
  show "fst (Serve lc n sigs w) = Returns None"
    if "fst (Dissembler_Wait \<lparr>lifecycle = lc\<rparr> sigs w') \<noteq> Blocks"
  proof (cases rule: Wait_result_cases [of "\<lparr>lifecycle = lc\<rparr>" sigs w'])
    case blocks
    then show ?thesis using that by simp
  next
    case (returns s)
    then show ?thesis using 1 by auto
  qed
  show "Serve lc n sigs w =
           (case Dissembler_Wait \<lparr>lifecycle = lc\<rparr> sigs
                   (go n ((snd (invoke CInit (Init lc) w))\<lparr>serve_err := None\<rparr>)) of
              (Blocks, w2) \<Rightarrow> (Blocks, w2)
            | (Returns r, w2) \<Rightarrow> (Returns (fst (Serve_finish r w2)), snd (Serve_finish r w2)))"
    using assms
    by (cases "Init lc (app w)")
       (simp add: Serve_def Dissembler_Serve_def invoke_def Let_def case_prod_beta
          split: outcome.split)
  show "Serve_finish (sg, None) w' = (None, w')"
    by (simp add: Serve_finish_def)
  show "Serve_finish (sg, Some e) w' =
           (None, log_error ''Unable to finish waiting for Dissembler to shutdown'' e w')"
    by (simp add: Serve_finish_def)
qed

theorem Serve_returns_nil_witness:
  "fst (Init (recorder None (Some ''start failed'') (Some ''stop failed'')) (app (init_world []))) = None \<and>
   Serve (recorder None (Some ''start failed'') (Some ''stop failed'')) 0 [SIGHUP, SIGTERM] (init_world []) =
     (Returns None,
      \<lparr>app = [''Init'', ''Start'', ''Stop''],
       trace = [Call CInit, Call CStart, LogInfo ''signal caught'' SIGHUP,
                LogInfo ''signal caught'' SIGTERM, Call CStop],
       serve_err = Some ''start failed'', pending = None\<rparr>) \<and>
   fst (Serve (recorder None (Some ''start failed'') (Some ''stop failed'')) 0 [SIGHUP, SIGUSR1]
     (init_world [])) = Blocks \<and>
   Serve_finish (SIGTERM, Some ''wait failed'') (init_world [''Init'']) =
     (None,
      \<lparr>app = [''Init''],
       trace = [LogError ''Unable to finish waiting for Dissembler to shutdown'' ''wait failed''],
       serve_err = None, pending = None\<rparr>)"
proof -
  let ?lc = "recorder None (Some ''start failed'') (Some ''stop failed'')"
  let ?w = "init_world [] :: string list world"
  have init: "fst (Init ?lc (app ?w)) = None"
    by (simp add: recorder_def)
  have a: "fst (Serve ?lc 0 [SIGHUP, SIGTERM] ?w) = Returns None"
    using Serve_returns_nil [OF init, where n = 0 and sigs = "[SIGHUP, SIGTERM]", THEN conjunct1]
    by (simp add: terminating_def)
  have a': "snd (Serve ?lc 0 [SIGHUP, SIGTERM] ?w) =
      \<lparr>app = [''Init'', ''Start'', ''Stop''],
       trace = [Call CInit, Call CStart, LogInfo ''signal caught'' SIGHUP,
                LogInfo ''signal caught'' SIGTERM, Call CStop],
       serve_err = Some ''start failed'', pending = None\<rparr>"
    by (simp add: run_defs)
  have whole: "Serve ?lc 0 [SIGHUP, SIGTERM] ?w =
     (Returns None,
      \<lparr>app = [''Init'', ''Start'', ''Stop''],
       trace = [Call CInit, Call CStart, LogInfo ''signal caught'' SIGHUP,
                LogInfo ''signal caught'' SIGTERM, Call CStop],
       serve_err = Some ''start failed'', pending = None\<rparr>)"
    using a a' by (simp add: prod_eq_iff)
  have b: "fst (Serve ?lc 0 [SIGHUP, SIGUSR1] ?w) = Blocks"
    using Serve_returns_nil [OF init, where n = 0 and sigs = "[SIGHUP, SIGUSR1]", THEN conjunct1]
    by (simp add: terminating_def)
  have c: "Serve_finish (SIGTERM, Some ''wait failed'') (init_world [''Init'']) =
     (None,
      \<lparr>app = [''Init''],
       trace = [LogError ''Unable to finish waiting for Dissembler to shutdown'' ''wait failed''],
       serve_err = None, pending = None\<rparr>)"
    using Serve_returns_nil [OF init, where sg = SIGTERM and e = "''wait failed''"
        and w' = "init_world [''Init'']",
        THEN conjunct2, THEN conjunct2, THEN conjunct2, THEN conjunct2, THEN conjunct2]
    by (simp add: log_error_def init_world_def)
  show ?thesis
    using init whole b c by (intro conjI)
qed

section \<open>Signals that do not terminate\<close>

text \<open>
  C5. For a lifecycle with no \<^verbatim>\<open>Reloader\<close>, let only \<^verbatim>\<open>SIGHUP\<close>, \<^verbatim>\<open>SIGUSR1\<close> and \<^verbatim>\<open>SIGUSR2\<close> be
  raised. Then \<^verbatim>\<open>Wait\<close> does not return and \<^verbatim>\<open>Stop\<close> is not called: no call is recorded,
  the goroutine of \<^verbatim>\<open>Wait\<close> only writes one log entry for each signal, and the application
  is left as it was (but for \<^verbatim>\<open>Start\<close>, when the goroutine of \<^verbatim>\<open>Serve\<close> is still to run).
  A terminating signal \<open>t\<close> raised after them makes \<^verbatim>\<open>Wait\<close> return \<open>(t, nil)\<close> with exactly
  one call of \<^verbatim>\<open>Stop\<close>, made after the log entry for \<open>t\<close>. With no goroutine pending the
  whole state after \<^verbatim>\<open>Wait\<close> is given in both cases.
\<close>

theorem Wait_ignores_HUP_USR:
  assumes "Reload (lifecycle d) = None" and "set pre \<subseteq> {SIGHUP, SIGUSR1, SIGUSR2}"
  shows "fst (Dissembler_Wait d pre w) = Blocks \<and>
         invocations CStop (snd (Dissembler_Wait d pre w)) = invocations CStop w \<and>
         main_trace (snd (Dissembler_Wait d pre w)) =
           main_trace w @ map (LogInfo ''signal caught'') pre \<and>
         app (snd (Dissembler_Wait d pre w)) =
           (case pending w of None \<Rightarrow> app w | Some k \<Rightarrow> snd (Start (lifecycle d) (app w))) \<and>
         (pending w = None \<longrightarrow>
            Dissembler_Wait d pre w =
              (Blocks, w\<lparr>trace := trace w @ map (LogInfo ''signal caught'') pre\<rparr>)) \<and>
         (t \<in> terminating \<longrightarrow>
            fst (Dissembler_Wait d (pre @ [t]) w) = Returns (t, None) \<and>
            invocations CStop (snd (Dissembler_Wait d (pre @ [t]) w)) = Suc (invocations CStop w) \<and>
            main_trace (snd (Dissembler_Wait d (pre @ [t]) w)) =
              main_trace w @ map (LogInfo ''signal caught'') (pre @ [t]) @ [Call CStop] \<and>
            (pending w = None \<longrightarrow>
               Dissembler_Wait d (pre @ [t]) w =
                 (Returns (t, None),
                  w\<lparr>app := snd (Stop (lifecycle d) (app w)),
                    trace := trace w @ map (LogInfo ''signal caught'') (pre @ [t]) @ [Call CStop]\<rparr>)))"
proof -
  have ign: "\<forall>x \<in> set pre. x \<notin> terminating"
    using assms(2) by (rule HUP_USR_ignored)
  have rel: "relayed Wait_handler pre = pre"
    using assms(2) by (rule relayed_HUP_USR)
  have none: "find (\<lambda>s. s \<in> terminating) pre = None"
    using ign by (simp add: find_terminating_None)
  have 1: "fst (Dissembler_Wait d pre w) = Blocks"
    by (simp add: fst_Wait none)
  have 2: "invocations CStop (snd (Dissembler_Wait d pre w)) = invocations CStop w"
    using ign by (simp add: invocations_Stop_Wait)
  have 3: "main_trace (snd (Dissembler_Wait d pre w)) =
           main_trace w @ map (LogInfo ''signal caught'') pre"
    using main_trace_Wait_ignored [OF ign, of d w] by (simp add: rel)
  have 4: "app (snd (Dissembler_Wait d pre w)) =
           (case pending w of None \<Rightarrow> app w | Some k \<Rightarrow> snd (Start (lifecycle d) (app w)))"
    using ign by (rule app_Wait_ignored)
  have 5: "Dissembler_Wait d pre w =
              (Blocks, w\<lparr>trace := trace w @ map (LogInfo ''signal caught'') pre\<rparr>)"
    if "pending w = None"
    using Wait_quiet_ignored [OF ign that, of d] by (simp add: rel)
  have 6: "fst (Dissembler_Wait d (pre @ [t]) w) = Returns (t, None) \<and>
            invocations CStop (snd (Dissembler_Wait d (pre @ [t]) w)) = Suc (invocations CStop w) \<and>
            main_trace (snd (Dissembler_Wait d (pre @ [t]) w)) =
              main_trace w @ map (LogInfo ''signal caught'') (pre @ [t]) @ [Call CStop] \<and>
            (pending w = None \<longrightarrow>
               Dissembler_Wait d (pre @ [t]) w =
                 (Returns (t, None),
                  w\<lparr>app := snd (Stop (lifecycle d) (app w)),
                    trace := trace w @ map (LogInfo ''signal caught'') (pre @ [t]) @ [Call CStop]\<rparr>))"
    if t: "t \<in> terminating"
  proof (intro conjI impI)
    show "fst (Dissembler_Wait d (pre @ [t]) w) = Returns (t, None)"
      by (simp add: fst_Wait find_terminating_first [OF ign t])
    show "invocations CStop (snd (Dissembler_Wait d (pre @ [t]) w)) = Suc (invocations CStop w)"
      using t by (auto simp add: invocations_Stop_Wait)
    show "main_trace (snd (Dissembler_Wait d (pre @ [t]) w)) =
              main_trace w @ map (LogInfo ''signal caught'') (pre @ [t]) @ [Call CStop]"
      using main_trace_Wait_terminating [OF ign t, of d "[]" w] by (simp add: rel)
    show "Dissembler_Wait d (pre @ [t]) w =
                 (Returns (t, None),
                  w\<lparr>app := snd (Stop (lifecycle d) (app w)),
                    trace := trace w @ map (LogInfo ''signal caught'') (pre @ [t]) @ [Call CStop]\<rparr>)"
      if "pending w = None"
      using Wait_quiet [OF ign t that, of d "[]"] by (simp add: rel)
  qed
  show ?thesis
    using 1 2 3 4 5 6 by blast
qed

theorem Wait_ignores_HUP_USR_witness:
  "Reload (lifecycle \<lparr>lifecycle = recorder None None None\<rparr>) = None \<and>
   set [SIGHUP, SIGHUP, SIGHUP] \<subseteq> {SIGHUP, SIGUSR1, SIGUSR2} \<and>
   SIGTERM \<in> terminating \<and>
   pending (init_world ([] :: string list)) = None \<and>
   Dissembler_Wait \<lparr>lifecycle = recorder None None None\<rparr> [SIGHUP, SIGHUP, SIGHUP] (init_world []) =
     (Blocks,
      \<lparr>app = [],
       trace = [LogInfo ''signal caught'' SIGHUP, LogInfo ''signal caught'' SIGHUP,
                LogInfo ''signal caught'' SIGHUP],
       serve_err = None, pending = None\<rparr>) \<and>
   Dissembler_Wait \<lparr>lifecycle = recorder None None None\<rparr> [SIGHUP, SIGHUP, SIGHUP, SIGTERM]
       (init_world []) =
     (Returns (SIGTERM, None),
      \<lparr>app = [''Stop''],
       trace = [LogInfo ''signal caught'' SIGHUP, LogInfo ''signal caught'' SIGHUP,
                LogInfo ''signal caught'' SIGHUP, LogInfo ''signal caught'' SIGTERM, Call CStop],
       serve_err = None, pending = None\<rparr>)"
proof -
  let ?d = "\<lparr>lifecycle = recorder None None None\<rparr>"
  let ?w = "init_world [] :: string list world"
  have r: "Reload (lifecycle ?d) = None"
    by (simp add: recorder_def)
  have p: "set [SIGHUP, SIGHUP, SIGHUP] \<subseteq> {SIGHUP, SIGUSR1, SIGUSR2}"
    by simp
  have t: "SIGTERM \<in> terminating"
    by (simp add: terminating_def)
  have q: "pending ?w = None"
    by (simp add: init_world_def)
  note th = Wait_ignores_HUP_USR [OF r p, where w = ?w and t = SIGTERM]
  have a: "Dissembler_Wait ?d [SIGHUP, SIGHUP, SIGHUP] ?w =
     (Blocks,
      \<lparr>app = [],
       trace = [LogInfo ''signal caught'' SIGHUP, LogInfo ''signal caught'' SIGHUP,
                LogInfo ''signal caught'' SIGHUP],
       serve_err = None, pending = None\<rparr>)"
    using th [THEN conjunct2, THEN conjunct2, THEN conjunct2, THEN conjunct2, THEN conjunct1,
        THEN mp, OF q]
    by (simp add: init_world_def)
  have b: "Dissembler_Wait ?d [SIGHUP, SIGHUP, SIGHUP, SIGTERM] ?w =
     (Returns (SIGTERM, None),
      \<lparr>app = [''Stop''],
       trace = [LogInfo ''signal caught'' SIGHUP, LogInfo ''signal caught'' SIGHUP,
                LogInfo ''signal caught'' SIGHUP, LogInfo ''signal caught'' SIGTERM, Call CStop],
       serve_err = None, pending = None\<rparr>)"
    using th [THEN conjunct2, THEN conjunct2, THEN conjunct2, THEN conjunct2, THEN conjunct2,
        THEN mp, OF t, THEN conjunct2, THEN conjunct2, THEN conjunct2, THEN mp, OF q]
    by (simp add: init_world_def recorder_def)
  show ?thesis
    using r p t q a b by (intro conjI)
qed

section \<open>The result of Start does not reach the caller\<close>

text \<open>
  C6. Two lifecycles that agree on \<^verbatim>\<open>Init\<close> and on \<^verbatim>\<open>Stop\<close> give \<^verbatim>\<open>Serve\<close> the same return
  value under the same signals, whatever their \<^verbatim>\<open>Start\<close> callbacks do and return, and
  whenever the scheduler runs them. The result of \<^verbatim>\<open>Start\<close> is assigned to the captured
  variable \<^verbatim>\<open>err\<close>, which \<^verbatim>\<open>Serve\<close> does not read again.
\<close>

theorem Serve_independent_of_Start:
  assumes "Init lc1 = Init lc2" and "Stop lc1 = Stop lc2"
  shows "fst (Serve lc1 n1 sigs w) = fst (Serve lc2 n2 sigs w)"
  using assms(1) by (simp add: fst_Serve)

theorem Serve_independent_of_Start_witness:
  "Init (recorder None None None) = Init (recorder None (Some ''start failed'') None) \<and>
   Stop (recorder None None None) = Stop (recorder None (Some ''start failed'') None) \<and>
   fst (Start (recorder None None None) []) = None \<and>
   fst (Start (recorder None (Some ''start failed'') None) []) = Some ''start failed'' \<and>
   Serve (recorder None None None) 0 [SIGUSR1, SIGTERM] (init_world []) =
     (Returns None,
      \<lparr>app = [''Init'', ''Start'', ''Stop''],
       trace = [Call CInit, Call CStart, LogInfo ''signal caught'' SIGUSR1,
                LogInfo ''signal caught'' SIGTERM, Call CStop],
       serve_err = None, pending = None\<rparr>) \<and>
   Serve (recorder None (Some ''start failed'') None) 0 [SIGUSR1, SIGTERM] (init_world []) =
     (Returns None,
      \<lparr>app = [''Init'', ''Start'', ''Stop''],
       trace = [Call CInit, Call CStart, LogInfo ''signal caught'' SIGUSR1,
                LogInfo ''signal caught'' SIGTERM, Call CStop],
       serve_err = Some ''start failed'', pending = None\<rparr>)"
proof -
  let ?lc1 = "recorder None None None"
  let ?lc2 = "recorder None (Some ''start failed'') None"
  let ?w = "init_world [] :: string list world"
  have i: "Init ?lc1 = Init ?lc2" and s: "Stop ?lc1 = Stop ?lc2"
    by (simp_all add: recorder_def)
  have st: "fst (Start ?lc1 []) = None" "fst (Start ?lc2 []) = Some ''start failed''"
    by (simp_all add: recorder_def)
  have a: "Serve ?lc1 0 [SIGUSR1, SIGTERM] ?w =
     (Returns None,
      \<lparr>app = [''Init'', ''Start'', ''Stop''],
       trace = [Call CInit, Call CStart, LogInfo ''signal caught'' SIGUSR1,
                LogInfo ''signal caught'' SIGTERM, Call CStop],
       serve_err = None, pending = None\<rparr>)"
    by (simp add: run_defs)
  have b1: "fst (Serve ?lc2 0 [SIGUSR1, SIGTERM] ?w) = Returns None"
    using Serve_independent_of_Start [OF i s, where ?n1.0 = 0 and ?n2.0 = 0
        and sigs = "[SIGUSR1, SIGTERM]" and w = ?w] a
    by simp
  have b2: "snd (Serve ?lc2 0 [SIGUSR1, SIGTERM] ?w) =
      \<lparr>app = [''Init'', ''Start'', ''Stop''],
       trace = [Call CInit, Call CStart, LogInfo ''signal caught'' SIGUSR1,
                LogInfo ''signal caught'' SIGTERM, Call CStop],
       serve_err = Some ''start failed'', pending = None\<rparr>"
    by (simp add: run_defs)
  have b: "Serve ?lc2 0 [SIGUSR1, SIGTERM] ?w =
     (Returns None,
      \<lparr>app = [''Init'', ''Start'', ''Stop''],
       trace = [Call CInit, Call CStart, LogInfo ''signal caught'' SIGUSR1,
                LogInfo ''signal caught'' SIGTERM, Call CStop],
       serve_err = Some ''start failed'', pending = None\<rparr>)"
    using b1 b2 by (simp add: prod_eq_iff)
  show ?thesis
    using i s st a b by (intro conjI)
qed

section \<open>The order of the recorded calls\<close>

text \<open>
  The \<^verbatim>\<open>go\<close> statement of line 110 does not wait for \<^verbatim>\<open>Start\<close>. When the scheduler lets the
  goroutine of \<^verbatim>\<open>Serve\<close> pass two scheduling points first (the log entry and the call of
  \<^verbatim>\<open>Stop\<close>), a single \<^verbatim>\<open>SIGINT\<close> makes the recording lifecycle record \<^verbatim>\<open>Stop\<close> before
  \<^verbatim>\<open>Start\<close>.
\<close>

theorem Serve_recorder_order_counterexample:
  "fst (Serve (recorder None None None) 2 [SIGINT] (init_world [])) = Returns None \<and>
   app (snd (Serve (recorder None None None) 2 [SIGINT] (init_world []))) =
     [''Init'', ''Stop'', ''Start''] \<and>
   app (snd (Serve (recorder None None None) 2 [SIGINT] (init_world []))) \<noteq>
     [''Init'', ''Start'', ''Stop'']"
  by (simp add: run_defs)

text \<open>
  C7, amended. For the lifecycle that records each call in a list, a single \<^verbatim>\<open>SIGINT\<close> makes
  \<^verbatim>\<open>Wait\<close> return \<^verbatim>\<open>SIGINT\<close> and \<^verbatim>\<open>Serve\<close> return \<^verbatim>\<open>nil\<close>. The recorded order is exactly
  \<open>Init, Start, Stop\<close> when the goroutine that calls \<^verbatim>\<open>Start\<close> runs before \<^verbatim>\<open>Wait\<close> calls
  \<^verbatim>\<open>Stop\<close> (\<open>n \<le> 1\<close>: it runs before the log entry, or between the log entry and the call).
  Under every schedule \<open>Init\<close> is recorded first and \<open>Stop\<close> once; when \<^verbatim>\<open>Start\<close> runs
  later the list is \<open>Init, Stop, Start\<close>, and \<open>Init, Stop\<close> when it has not run by the time
  \<^verbatim>\<open>Serve\<close> returns.
\<close>

theorem Serve_recorder_order:
  "(n \<le> 1 \<longrightarrow>
      app (snd (Serve (recorder None rs rp) n [SIGINT] (init_world []))) =
        [''Init'', ''Start'', ''Stop'']) \<and>
   app (snd (Serve (recorder None rs rp) n [SIGINT] (init_world []))) =
     (if n \<le> 1 then [''Init'', ''Start'', ''Stop'']
      else if n = 2 then [''Init'', ''Stop'', ''Start'']
      else [''Init'', ''Stop'']) \<and>
   filter (\<lambda>name. name \<noteq> ''Start'')
      (app (snd (Serve (recorder None rs rp) n [SIGINT] (init_world [])))) = [''Init'', ''Stop''] \<and>
   fst (Serve (recorder None rs rp) n [SIGINT] (init_world [])) = Returns None \<and>
   fst (Dissembler_Wait \<lparr>lifecycle = recorder None rs rp\<rparr> [SIGINT] w) = Returns (SIGINT, None)"
proof (intro conjI impI)
  show "app (snd (Serve (recorder None rs rp) n [SIGINT] (init_world []))) =
        [''Init'', ''Start'', ''Stop'']" if "n \<le> 1"
    using that by (simp add: Serve_recorder_run)
  show "app (snd (Serve (recorder None rs rp) n [SIGINT] (init_world []))) =
     (if n \<le> 1 then [''Init'', ''Start'', ''Stop'']
      else if n = 2 then [''Init'', ''Stop'', ''Start'']
      else [''Init'', ''Stop''])"
    by (simp add: Serve_recorder_run)
  show "filter (\<lambda>name. name \<noteq> ''Start'')
      (app (snd (Serve (recorder None rs rp) n [SIGINT] (init_world [])))) = [''Init'', ''Stop'']"
    by (simp add: Serve_recorder_run)
  show "fst (Serve (recorder None rs rp) n [SIGINT] (init_world [])) = Returns None"
    by (simp add: Serve_recorder_run)
  show "fst (Dissembler_Wait \<lparr>lifecycle = recorder None rs rp\<rparr> [SIGINT] w) = Returns (SIGINT, None)"
    by (simp add: fst_Wait terminating_def)
qed

theorem Serve_recorder_order_witness:
  "(0::nat) \<le> 1 \<and>
   app (snd (Serve (recorder None None None) 0 [SIGINT] (init_world []))) =
     [''Init'', ''Start'', ''Stop''] \<and>
   fst (Dissembler_Wait \<lparr>lifecycle = recorder None None None\<rparr> [SIGINT]
     (go 0 (init_world [''Init'']))) = Returns (SIGINT, None)"
  using Serve_recorder_order [of 0 None None "go 0 (init_world [''Init''])"]
  by simp

section \<open>What Wait subscribes to\<close>

text \<open>
  C8. \<^verbatim>\<open>Wait\<close> registers its channel for exactly the six signals \<^verbatim>\<open>SIGHUP\<close>, \<^verbatim>\<open>SIGINT\<close>,
  \<^verbatim>\<open>SIGQUIT\<close>, \<^verbatim>\<open>SIGTERM\<close>, \<^verbatim>\<open>SIGUSR1\<close>, \<^verbatim>\<open>SIGUSR2\<close>, each once. The channel is empty at
  first and its capacity is at least 2: any two registered signals raised one after the
  other are both held in the buffer, in the order raised, with no receive in between. A
  signal outside the six does not reach the channel, and the loop of \<^verbatim>\<open>Wait\<close> runs over the
  six kinds only.
\<close>

theorem Wait_subscription:
  "set (wanted Wait_handler) = {SIGHUP, SIGINT, SIGQUIT, SIGTERM, SIGUSR1, SIGUSR2} \<and>
   distinct (wanted Wait_handler) \<and>
   2 \<le> capacity (chan Wait_handler) \<and>
   buffer (chan Wait_handler) = [] \<and>
   (\<forall>a \<in> set (wanted Wait_handler). \<forall>b \<in> set (wanted Wait_handler).
      buffer (chan (deliver b (deliver a Wait_handler))) = [a, b]) \<and>
   deliver (SIGOTHER k) Wait_handler = Wait_handler \<and>
   Dissembler_Wait d sigs w =
     Wait_loop d (filter (\<lambda>s. s \<in> {SIGHUP, SIGINT, SIGQUIT, SIGTERM, SIGUSR1, SIGUSR2}) sigs) w"
proof (intro conjI ballI)
  show "set (wanted Wait_handler) = {SIGHUP, SIGINT, SIGQUIT, SIGTERM, SIGUSR1, SIGUSR2}"
    by (simp add: Wait_handler_def Notify_def)
  show "distinct (wanted Wait_handler)"
    by (simp add: Wait_handler_def Notify_def)
  show "2 \<le> capacity (chan Wait_handler)"
    by (simp add: Wait_handler_def Notify_def make_chan_def)
  show "buffer (chan Wait_handler) = []"
    by (simp add: Wait_handler_def Notify_def make_chan_def)
  show "buffer (chan (deliver b (deliver a Wait_handler))) = [a, b]"
    if "a \<in> set (wanted Wait_handler)" and "b \<in> set (wanted Wait_handler)" for a b
    using that by (simp add: deliver_def Wait_handler_def Notify_def make_chan_def)
  show "deliver (SIGOTHER k) Wait_handler = Wait_handler"
    by (simp add: deliver_def Wait_handler_def Notify_def)
  show "Dissembler_Wait d sigs w =
     Wait_loop d (filter (\<lambda>s. s \<in> {SIGHUP, SIGINT, SIGQUIT, SIGTERM, SIGUSR1, SIGUSR2}) sigs) w"
    by (simp add: Dissembler_Wait_def relayed_def Wait_handler_def Notify_def)
qed

theorem Wait_subscription_witness:
  "SIGINT \<in> set (wanted Wait_handler) \<and> SIGTERM \<in> set (wanted Wait_handler) \<and>
   buffer (chan (deliver SIGTERM (deliver SIGINT Wait_handler))) = [SIGINT, SIGTERM] \<and>
   buffer (chan (deliver SIGHUP (deliver SIGTERM (deliver SIGINT Wait_handler)))) = [SIGINT, SIGTERM]"
proof -
  have a: "SIGINT \<in> set (wanted Wait_handler)" and b: "SIGTERM \<in> set (wanted Wait_handler)"
    by (simp_all add: Wait_handler_def Notify_def)
  have two: "buffer (chan (deliver SIGTERM (deliver SIGINT Wait_handler))) = [SIGINT, SIGTERM]"
    using Wait_subscription [THEN conjunct2, THEN conjunct2, THEN conjunct2, THEN conjunct2,
        THEN conjunct1, rule_format, OF a b] .
  have three: "buffer (chan (deliver SIGHUP (deliver SIGTERM (deliver SIGINT Wait_handler)))) =
      [SIGINT, SIGTERM]"
    by (simp add: deliver_def Wait_handler_def Notify_def make_chan_def)
  show ?thesis
    using a b two three by (intro conjI)
qed

section \<open>Reload is never called\<close>

text \<open>
  C9. \<^verbatim>\<open>Serve\<close> and \<^verbatim>\<open>Wait\<close> never call \<^verbatim>\<open>Reload\<close>: a run is the same, in its result, in the
  state of the application and in its trace, whether or not the lifecycle implements
  \<^verbatim>\<open>Reloader\<close> and whatever its \<^verbatim>\<open>Reload\<close> would do, and no call of \<^verbatim>\<open>Reload\<close> is recorded,
  under every sequence of signals.
\<close>

theorem Reload_never_invoked:
  "Serve (lc\<lparr>Reload := r\<rparr>) n sigs w = Serve lc n sigs w \<and>
   Dissembler_Wait \<lparr>lifecycle = lc\<lparr>Reload := r\<rparr>\<rparr> sigs w = Dissembler_Wait \<lparr>lifecycle = lc\<rparr> sigs w \<and>
   invocations CReload (snd (Serve lc n sigs w)) = invocations CReload w \<and>
   invocations CReload (snd (Dissembler_Wait d sigs w)) = invocations CReload w"
  by (simp add: Serve_Reload Wait_Reload invocations_Reload_Serve invocations_other_Wait)

theorem Reload_never_invoked_witness:
  "Reload ((recorder None None None)\<lparr>Reload := Some (\<lambda>l. (None, l @ [''Reload'']))\<rparr>) \<noteq> None \<and>
   Serve ((recorder None None None)\<lparr>Reload := Some (\<lambda>l. (None, l @ [''Reload'']))\<rparr>) 0
       [SIGHUP, SIGHUP, SIGTERM] (init_world []) =
     (Returns None,
      \<lparr>app = [''Init'', ''Start'', ''Stop''],
       trace = [Call CInit, Call CStart, LogInfo ''signal caught'' SIGHUP,
                LogInfo ''signal caught'' SIGHUP, LogInfo ''signal caught'' SIGTERM, Call CStop],
       serve_err = None, pending = None\<rparr>)"
proof -
  have run: "Serve (recorder None None None) 0 [SIGHUP, SIGHUP, SIGTERM] (init_world []) =
     (Returns None,
      \<lparr>app = [''Init'', ''Start'', ''Stop''],
       trace = [Call CInit, Call CStart, LogInfo ''signal caught'' SIGHUP,
                LogInfo ''signal caught'' SIGHUP, LogInfo ''signal caught'' SIGTERM, Call CStop],
       serve_err = None, pending = None\<rparr>)"
    by (simp add: run_defs)
  show ?thesis
    using Reload_never_invoked [where lc = "recorder None None None"
        and r = "Some (\<lambda>l. (None, l @ [''Reload'']))" and n = 0
        and sigs = "[SIGHUP, SIGHUP, SIGTERM]" and w = "init_world []", THEN conjunct1] run
    by simp
qed

section \<open>Wait never reports an error\<close>

text \<open>
  C10. Whenever \<^verbatim>\<open>Wait\<close> returns, the error it returns is \<^verbatim>\<open>nil\<close>. So the branch of \<^verbatim>\<open>Serve\<close>
  that logs \<open>Unable to finish waiting for Dissembler to shutdown\<close> is never taken: neither
  \<^verbatim>\<open>Wait\<close> nor \<^verbatim>\<open>Serve\<close> adds an error-level entry to the log, for every lifecycle, every
  sequence of signals and every schedule.
\<close>

theorem Wait_error_always_nil:
  "(\<forall>r. fst (Dissembler_Wait d sigs w) = Returns r \<longrightarrow> snd r = None) \<and>
   error_entries (snd (Dissembler_Wait d sigs w)) = error_entries w \<and>
   error_entries (snd (Serve lc n sigs w)) = error_entries w"
proof (intro conjI allI impI)
  fix r assume r: "fst (Dissembler_Wait d sigs w) = Returns r"
  show "snd r = None"
  proof (cases rule: Wait_result_cases [of d sigs w])
    case blocks
    then show ?thesis using r by simp
  next
    case (returns s)
    then show ?thesis using r by simp
  qed
next
  show "error_entries (snd (Dissembler_Wait d sigs w)) = error_entries w"
    by (rule error_entries_Wait)
  show "error_entries (snd (Serve lc n sigs w)) = error_entries w"
    by (rule error_entries_Serve)
qed

theorem Wait_error_always_nil_witness:
  "Dissembler_Wait \<lparr>lifecycle = recorder None None (Some ''stop failed'')\<rparr> [SIGUSR2, SIGQUIT]
         (init_world []) =
     (Returns (SIGQUIT, None),
      \<lparr>app = [''Stop''],
       trace = [LogInfo ''signal caught'' SIGUSR2, LogInfo ''signal caught'' SIGQUIT, Call CStop],
       serve_err = None, pending = None\<rparr>) \<and>
   snd (SIGQUIT, None :: error option) = None \<and>
   error_entries (snd (Serve (recorder None (Some ''start failed'') (Some ''stop failed'')) 1
         [SIGUSR2, SIGQUIT] (init_world []))) = []"
proof -
  let ?d = "\<lparr>lifecycle = recorder None None (Some ''stop failed'')\<rparr>"
  let ?w = "init_world [] :: string list world"
  have whole: "Dissembler_Wait ?d [SIGUSR2, SIGQUIT] ?w =
     (Returns (SIGQUIT, None),
      \<lparr>app = [''Stop''],
       trace = [LogInfo ''signal caught'' SIGUSR2, LogInfo ''signal caught'' SIGQUIT, Call CStop],
       serve_err = None, pending = None\<rparr>)"
    by (simp add: run_defs)
  then have run: "fst (Dissembler_Wait ?d [SIGUSR2, SIGQUIT] ?w) = Returns (SIGQUIT, None)"
    by simp
  have nil: "snd (SIGQUIT, None :: error option) = None"
    using Wait_error_always_nil [THEN conjunct1, rule_format, OF run] .
  have z: "error_entries ?w = []"
    by (simp add: error_entries_def init_world_def)
  have e: "error_entries (snd (Serve (recorder None (Some ''start failed'') (Some ''stop failed'')) 1
         [SIGUSR2, SIGQUIT] ?w)) = []"
    using Wait_error_always_nil [where lc = "recorder None (Some ''start failed'') (Some ''stop failed'')"
        and n = 1 and sigs = "[SIGUSR2, SIGQUIT]" and w = ?w, THEN conjunct2, THEN conjunct2]
    by (simp add: z)
  show ?thesis
    using whole nil e by (intro conjI)
qed

end
